theory Spec2Isabelle
  imports Main "HOL-Library.Word"
begin

unbundle bit_operations_syntax

section \<open>The reactor of lib/event/reactor.c\<close>

text \<open>
  A shallow embedding of \<^verbatim>\<open>src/lib/event/reactor.c\<close>. The C globals are the fields of one
  record that every function takes and returns. Pointers to events and pollers are
  addresses (natural numbers, \<open>NULL\<close> is 0) into two memories; a pointer
  \<^verbatim>\<open>&g_reactors[i]\<close> is the index \<open>i\<close>. A call that ends the process is a value of
  type \<open>error\<close>. A C function whose name starts with an underscore has the prefix
  \<open>u_\<close> here.
\<close>

subsection \<open>Addresses and process termination\<close>

type_synonym ptr = nat

abbreviation (input) NULL :: ptr where
  "NULL \<equiv> 0"

text \<open>
  \<open>Abort\<close>: a failed \<^verbatim>\<open>RTE_VERIFY\<close>; \<open>Exit\<close>: \<^verbatim>\<open>exit(EXIT_FAILURE)\<close>; \<open>Fault\<close>: a ring or
  pool primitive called on a null ring or pool.
\<close>

datatype error = Abort | Exit | Fault

subsection \<open>The ring and the object pool of the host library\<close>

text \<open>
  Modelled from the spec: \<^verbatim>\<open>rte_ring\<close> and \<^verbatim>\<open>rte_mempool\<close> are the host library's, not this
  repository's. The spec calls the ring a "bounded FIFO queue" whose enqueue "fails
  only if the ring is saturated", and the pool a "fixed-capacity object pool
  (acquire / release)". A failed dequeue leaves the caller's variable as it was.
\<close>

record rte_ring =
  ring_entries :: "ptr list"
  ring_capacity :: nat

definition ENOENT :: int where
  "ENOENT = 2"

definition ENOBUFS :: int where
  "ENOBUFS = 105"

definition rte_ring_count :: "rte_ring \<Rightarrow> nat" where
  "rte_ring_count r = length (ring_entries r)"

definition rte_ring_enqueue :: "rte_ring \<Rightarrow> ptr \<Rightarrow> int \<times> rte_ring" where
  "rte_ring_enqueue r obj =
     (if length (ring_entries r) < ring_capacity r
      then (0, r\<lparr>ring_entries := ring_entries r @ [obj]\<rparr>)
      else (- ENOBUFS, r))"

definition rte_ring_dequeue :: "rte_ring \<Rightarrow> ptr \<Rightarrow> int \<times> rte_ring \<times> ptr" where
  "rte_ring_dequeue r obj =
     (case ring_entries r of
        [] \<Rightarrow> (- ENOENT, r, obj)
      | x # xs \<Rightarrow> (0, r\<lparr>ring_entries := xs\<rparr>, x))"

definition rte_mempool_get :: "ptr list \<Rightarrow> ptr \<Rightarrow> int \<times> ptr list \<times> ptr" where
  "rte_mempool_get pool obj =
     (case pool of
        [] \<Rightarrow> (- ENOENT, pool, obj)
      | x # xs \<Rightarrow> (0, xs, x))"

definition rte_mempool_put :: "ptr list \<Rightarrow> ptr \<Rightarrow> ptr list" where
  "rte_mempool_put pool obj = obj # pool"

subsection \<open>The structures\<close>

datatype spdk_reactor_state = INVALID | INITIALIZED | RUNNING | EXITING | SHUTDOWN

fun state_value :: "spdk_reactor_state \<Rightarrow> nat" where
  "state_value INVALID = 0"
| "state_value INITIALIZED = 1"
| "state_value RUNNING = 2"
| "state_value EXITING = 3"
| "state_value SHUTDOWN = 4"

text \<open>
  The function pointers an event can hold: the three handlers of this file, and the
  callbacks of the application, told apart by a number.
\<close>

datatype spdk_event_fn =
  FN_add_poller | FN_remove_poller | FN_poller_migrate | FN_user nat

record spdk_event =
  ev_lcore :: nat
  ev_fn :: spdk_event_fn
  ev_arg1 :: ptr
  ev_arg2 :: ptr
  ev_next :: ptr

record spdk_poller =
  p_lcore :: nat
  p_fn :: nat
  p_arg :: nat

record spdk_reactor =
  r_lcore :: nat
  active_pollers :: "rte_ring option"
  events :: "rte_ring option"

text \<open>
  \<open>app_mem\<close> is the memory of the application, by address: what the \<^verbatim>\<open>arg\<close> of a poller
  and the arguments of an event point into. No function of this file reads or writes
  it; the callbacks do. \<open>trace\<close> is a history variable, not a variable of the program:
  the reactor appends an entry when it invokes a callback, the timer tick, or frees an
  event.
\<close>

datatype action = EventRun ptr | EventFree ptr | TimerManage | PollerRun ptr

type_synonym app_memory = "ptr \<Rightarrow> nat"

record state =
  g_reactors :: "nat \<Rightarrow> spdk_reactor"
  g_reactor_mask :: "64 word"
  g_reactor_count :: int
  g_reactor_state :: spdk_reactor_state
  g_spdk_event_mempool :: "ptr list option"
  event_mem :: "ptr \<Rightarrow> spdk_event"
  poller_mem :: "ptr \<Rightarrow> spdk_poller"
  app_mem :: app_memory
  trace :: "action list"

text \<open>
  The callbacks of the application and the timer tick of the host library are
  parameters: each takes the state and returns the new one, or ends the process.
\<close>

record callbacks =
  user_event_fn :: "nat \<Rightarrow> ptr \<Rightarrow> state \<Rightarrow> error + state"
  poller_fn :: "nat \<Rightarrow> nat \<Rightarrow> state \<Rightarrow> error + state"
  rte_timer_manage :: "state \<Rightarrow> error + state"

text \<open>A callback cannot write the history variable: it is restored when it returns.\<close>

definition run_callback :: "(state \<Rightarrow> error + state) \<Rightarrow> state \<Rightarrow> error + state" where
  "run_callback f s =
     (case f s of
        Inl e \<Rightarrow> Inl e
      | Inr s' \<Rightarrow> Inr (s'\<lparr>trace := trace s\<rparr>))"

definition set_active_pollers :: "nat \<Rightarrow> rte_ring \<Rightarrow> state \<Rightarrow> state" where
  "set_active_pollers reactor r s =
     s\<lparr>g_reactors := (g_reactors s)(reactor := (g_reactors s reactor)\<lparr>active_pollers := Some r\<rparr>)\<rparr>"

definition set_events :: "nat \<Rightarrow> rte_ring \<Rightarrow> state \<Rightarrow> state" where
  "set_events reactor r s =
     s\<lparr>g_reactors := (g_reactors s)(reactor := (g_reactors s reactor)\<lparr>events := Some r\<rparr>)\<rparr>"

subsection \<open>Shifts and conversions\<close>

text \<open>
  \<^verbatim>\<open>1ULL << i\<close>, for a count \<open>i\<close> of type \<^verbatim>\<open>int\<close> or \<^verbatim>\<open>uint32_t\<close>. For \<open>0 \<le> i < 64\<close> this is
  the word with bit \<open>i\<close> alone. C leaves the shift undefined for the other counts; the
  definition gives what the shift instruction of the processor computes there (x86-64
  and 64-bit ARM take the count modulo 64), so a core number of 64 or more reads and
  writes the bit of the core 64 places below. \<open>to_uint32\<close> is the conversion of an \<^verbatim>\<open>int\<close>
  to \<^verbatim>\<open>uint32_t\<close>.
\<close>

definition shl_1ULL :: "int \<Rightarrow> 64 word" where
  "shl_1ULL i = push_bit (nat (i mod 64)) 1"

definition to_uint32 :: "int \<Rightarrow> nat" where
  "to_uint32 i = nat (i mod 2 ^ 32)"

subsection \<open>Events\<close>

definition spdk_event_allocate ::
  "nat \<Rightarrow> spdk_event_fn \<Rightarrow> ptr \<Rightarrow> ptr \<Rightarrow> ptr \<Rightarrow> state \<Rightarrow> error + (ptr \<times> state)" where
  "spdk_event_allocate lcore fn arg1 arg2 next s =
     (case g_spdk_event_mempool s of
        None \<Rightarrow> Inl Fault
      | Some pool \<Rightarrow>
          (case rte_mempool_get pool NULL of
             (rc, pool', event) \<Rightarrow>
               if \<not> (rc = 0 \<and> event \<noteq> NULL) then Inl Abort
               else Inr (event,
                 s\<lparr>g_spdk_event_mempool := Some pool',
                   event_mem := (event_mem s)(event :=
                     \<lparr>ev_lcore = lcore, ev_fn = fn, ev_arg1 = arg1, ev_arg2 = arg2,
                      ev_next = next\<rparr>)\<rparr>)))"

definition spdk_event_free :: "ptr \<Rightarrow> state \<Rightarrow> error + state" where
  "spdk_event_free event s =
     (case g_spdk_event_mempool s of
        None \<Rightarrow> Inl Fault
      | Some pool \<Rightarrow>
          Inr (s\<lparr>g_spdk_event_mempool := Some (rte_mempool_put pool event),
                 trace := trace s @ [EventFree event]\<rparr>))"

definition spdk_event_call :: "ptr \<Rightarrow> state \<Rightarrow> error + state" where
  "spdk_event_call event s =
     (let reactor = ev_lcore (event_mem s event) in
      case events (g_reactors s reactor) of
        None \<Rightarrow> Inl Abort
      | Some q \<Rightarrow>
          (case rte_ring_enqueue q event of
             (rc, q') \<Rightarrow> if rc \<noteq> 0 then Inl Abort else Inr (set_events reactor q' s)))"

definition spdk_event_queue_count :: "nat \<Rightarrow> state \<Rightarrow> nat" where
  "spdk_event_queue_count lcore s =
     (case events (g_reactors s lcore) of
        None \<Rightarrow> 0
      | Some q \<Rightarrow> rte_ring_count q)"

subsection \<open>The control protocol: register, unregister, migrate\<close>

definition u_spdk_event_add_poller :: "ptr \<Rightarrow> state \<Rightarrow> error + state" where
  "u_spdk_event_add_poller event s =
     (let reactor = ev_arg1 (event_mem s event);
          poller = ev_arg2 (event_mem s event);
          next = ev_next (event_mem s event);
          s1 = s\<lparr>poller_mem := (poller_mem s)(poller :=
                 (poller_mem s poller)\<lparr>p_lcore := r_lcore (g_reactors s reactor)\<rparr>)\<rparr>
      in case active_pollers (g_reactors s1 reactor) of
           None \<Rightarrow> Inl Fault
         | Some r \<Rightarrow>
             (case rte_ring_enqueue r poller of
                (rc, r') \<Rightarrow>
                  let s2 = set_active_pollers reactor r' s1
                  in if next \<noteq> NULL then spdk_event_call next s2 else Inr s2))"

definition spdk_poller_register :: "ptr \<Rightarrow> nat \<Rightarrow> ptr \<Rightarrow> state \<Rightarrow> error + state" where
  "spdk_poller_register poller lcore complete s =
     (case spdk_event_allocate lcore FN_add_poller lcore poller complete s of
        Inl e \<Rightarrow> Inl e
      | Inr (event, s1) \<Rightarrow> spdk_event_call event s1)"

text \<open>
  The loop of \<^verbatim>\<open>_spdk_event_remove_poller\<close>, on the ring: \<open>i\<close> is the loop counter and
  \<open>tmp\<close> the variable the dequeue writes. The condition reads the ring's count at
  every iteration, as the \<^verbatim>\<open>for\<close> statement does. The result is the final \<open>i\<close> (one
  dequeue per iteration), the final \<open>tmp\<close> and the ring.
\<close>

function remove_poller_loop ::
  "ptr \<Rightarrow> nat \<Rightarrow> ptr \<Rightarrow> rte_ring \<Rightarrow> error + (nat \<times> ptr \<times> rte_ring)" where
  "remove_poller_loop poller i tmp r =
     (if i < rte_ring_count r then
        (case rte_ring_dequeue r tmp of
           (rc0, r1, tmp1) \<Rightarrow>
             if tmp1 \<noteq> poller then
               (case rte_ring_enqueue r1 tmp1 of
                  (rc, r2) \<Rightarrow>
                    if rc \<noteq> 0 then Inl Exit
                    else remove_poller_loop poller (i + 1) tmp1 r2)
             else remove_poller_loop poller (i + 1) tmp1 r1)
      else Inr (i, tmp, r))"
  by pat_completeness auto
termination
  by (relation "measure (\<lambda>(poller, i, tmp, r). rte_ring_count r - i)")
     (auto simp: rte_ring_count_def rte_ring_dequeue_def rte_ring_enqueue_def
           split: list.splits if_splits)

declare remove_poller_loop.simps [simp del]

definition u_spdk_event_remove_poller :: "ptr \<Rightarrow> state \<Rightarrow> error + state" where
  "u_spdk_event_remove_poller event s =
     (let reactor = ev_arg1 (event_mem s event);
          poller = ev_arg2 (event_mem s event);
          next = ev_next (event_mem s event)
      in case active_pollers (g_reactors s reactor) of
           None \<Rightarrow> Inl Fault
         | Some r \<Rightarrow>
             (case remove_poller_loop poller 0 NULL r of
                Inl e \<Rightarrow> Inl e
              | Inr (i, tmp, r') \<Rightarrow>
                  let s1 = set_active_pollers reactor r' s
                  in if next \<noteq> NULL then spdk_event_call next s1 else Inr s1))"

definition spdk_poller_unregister :: "ptr \<Rightarrow> ptr \<Rightarrow> state \<Rightarrow> error + state" where
  "spdk_poller_unregister poller complete s =
     (let lcore = p_lcore (poller_mem s poller)
      in case spdk_event_allocate lcore FN_remove_poller lcore poller complete s of
           Inl e \<Rightarrow> Inl e
         | Inr (event, s1) \<Rightarrow> spdk_event_call event s1)"

text \<open>\<open>lcore\<close> is \<^verbatim>\<open>rte_lcore_id()\<close>: the core of the thread that runs the handler.\<close>

definition u_spdk_poller_migrate :: "nat \<Rightarrow> ptr \<Rightarrow> state \<Rightarrow> error + state" where
  "u_spdk_poller_migrate lcore event s =
     (let poller = ev_arg1 (event_mem s event);
          next = ev_next (event_mem s event)
      in spdk_poller_register poller lcore next s)"

definition spdk_app_get_core_mask :: "state \<Rightarrow> 64 word" where
  "spdk_app_get_core_mask s = g_reactor_mask s"

text \<open>\<open>new_lcore\<close> is an \<^verbatim>\<open>int\<close>; \<^verbatim>\<open>spdk_event_allocate\<close> takes it as \<^verbatim>\<open>uint32_t\<close>.\<close>

definition spdk_poller_migrate :: "ptr \<Rightarrow> int \<Rightarrow> ptr \<Rightarrow> state \<Rightarrow> error + state" where
  "spdk_poller_migrate poller new_lcore complete s =
     (if spdk_app_get_core_mask s AND shl_1ULL new_lcore = 0 then Inl Abort
      else if poller = NULL then Inl Abort
      else
        (case spdk_event_allocate (to_uint32 new_lcore) FN_poller_migrate poller NULL
                complete s of
           Inl e \<Rightarrow> Inl e
         | Inr (event, s1) \<Rightarrow> spdk_poller_unregister poller event s1))"

subsection \<open>Running events\<close>

text \<open>\<^verbatim>\<open>event->fn(event)\<close>: the call through the function pointer of the event.\<close>

definition event_fn_call :: "callbacks \<Rightarrow> nat \<Rightarrow> ptr \<Rightarrow> state \<Rightarrow> error + state" where
  "event_fn_call cb lcore event s =
     (case ev_fn (event_mem s event) of
        FN_add_poller \<Rightarrow> u_spdk_event_add_poller event s
      | FN_remove_poller \<Rightarrow> u_spdk_event_remove_poller event s
      | FN_poller_migrate \<Rightarrow> u_spdk_poller_migrate lcore event s
      | FN_user k \<Rightarrow> user_event_fn cb k event s)"

definition spdk_event_queue_run_single :: "callbacks \<Rightarrow> nat \<Rightarrow> state \<Rightarrow> error + state" where
  "spdk_event_queue_run_single cb lcore s =
     (case events (g_reactors s lcore) of
        None \<Rightarrow> Inl Abort
      | Some q \<Rightarrow>
          (case rte_ring_dequeue q NULL of
             (rc, q', event) \<Rightarrow>
               let s1 = set_events lcore q' s
               in if rc \<noteq> 0 \<or> event = NULL then Inr s1
                  else
                    (case run_callback (event_fn_call cb lcore event)
                            (s1\<lparr>trace := trace s1 @ [EventRun event]\<rparr>) of
                       Inl e \<Rightarrow> Inl e
                     | Inr s2 \<Rightarrow> spdk_event_free event s2)))"

fun spdk_event_queue_run :: "callbacks \<Rightarrow> nat \<Rightarrow> nat \<Rightarrow> state \<Rightarrow> error + state" where
  "spdk_event_queue_run cb lcore 0 s = Inr s"
| "spdk_event_queue_run cb lcore (Suc count) s =
     (case spdk_event_queue_run_single cb lcore s of
        Inl e \<Rightarrow> Inl e
      | Inr s1 \<Rightarrow> spdk_event_queue_run cb lcore count s1)"

definition spdk_event_queue_run_all :: "callbacks \<Rightarrow> nat \<Rightarrow> state \<Rightarrow> error + state" where
  "spdk_event_queue_run_all cb lcore s =
     (let count = spdk_event_queue_count lcore s
      in spdk_event_queue_run cb lcore count s)"

subsection \<open>The reactor loop\<close>

text \<open>
  Lines 260 to 268 of \<^verbatim>\<open>_spdk_reactor_run\<close>: the poller step of one iteration. The ring
  is read again after the callback returns.
\<close>

definition reactor_poll :: "callbacks \<Rightarrow> nat \<Rightarrow> state \<Rightarrow> error + state" where
  "reactor_poll cb reactor s =
     (case active_pollers (g_reactors s reactor) of
        None \<Rightarrow> Inl Fault
      | Some r \<Rightarrow>
          (case rte_ring_dequeue r NULL of
             (rc0, r1, poller) \<Rightarrow>
               if rc0 = 0 then
                 (let s1 = set_active_pollers reactor r1 s;
                      s2 = s1\<lparr>trace := trace s1 @ [PollerRun poller]\<rparr>
                  in case run_callback
                            (poller_fn cb (p_fn (poller_mem s2 poller))
                               (p_arg (poller_mem s2 poller))) s2 of
                       Inl e \<Rightarrow> Inl e
                     | Inr s3 \<Rightarrow>
                         (case active_pollers (g_reactors s3 reactor) of
                            None \<Rightarrow> Inl Fault
                          | Some r3 \<Rightarrow>
                              (case rte_ring_enqueue r3 poller of
                                 (rc, r4) \<Rightarrow>
                                   if rc \<noteq> 0 then Inl Exit
                                   else Inr (set_active_pollers reactor r4 s3))))
               else Inr s))"

text \<open>
  Lines 256 to 268: the body of the loop before the test of \<^verbatim>\<open>g_reactor_state\<close>.
  \<open>lcore\<close> is \<^verbatim>\<open>rte_lcore_id()\<close> and \<open>reactor\<close> the argument of the thread.
\<close>

definition reactor_iteration :: "callbacks \<Rightarrow> nat \<Rightarrow> nat \<Rightarrow> state \<Rightarrow> error + state" where
  "reactor_iteration cb lcore reactor s =
     (case spdk_event_queue_run_all cb lcore s of
        Inl e \<Rightarrow> Inl e
      | Inr s1 \<Rightarrow>
          (case run_callback (rte_timer_manage cb) (s1\<lparr>trace := trace s1 @ [TimerManage]\<rparr>) of
             Inl e \<Rightarrow> Inl e
           | Inr s2 \<Rightarrow> reactor_poll cb reactor s2))"

text \<open>
  The loop \<^verbatim>\<open>while (1)\<close> can run for ever: it takes fuel, one unit per iteration, and
  \<open>None\<close> says that the loop has not returned when the fuel is used up.
\<close>

fun u_spdk_reactor_run ::
  "nat \<Rightarrow> callbacks \<Rightarrow> nat \<Rightarrow> nat \<Rightarrow> state \<Rightarrow> (error + state) option" where
  "u_spdk_reactor_run 0 cb lcore reactor s = None"
| "u_spdk_reactor_run (Suc fuel) cb lcore reactor s =
     (case reactor_iteration cb lcore reactor s of
        Inl e \<Rightarrow> Some (Inl e)
      | Inr s1 \<Rightarrow>
          if g_reactor_state s1 \<noteq> RUNNING then Some (Inr s1)
          else u_spdk_reactor_run fuel cb lcore reactor s1)"

text \<open>The first \<open>n\<close> iterations of the body, for the statements that count iterations.\<close>

fun reactor_iterations :: "nat \<Rightarrow> callbacks \<Rightarrow> nat \<Rightarrow> nat \<Rightarrow> state \<Rightarrow> error + state" where
  "reactor_iterations 0 cb lcore reactor s = Inr s"
| "reactor_iterations (Suc n) cb lcore reactor s =
     (case reactor_iteration cb lcore reactor s of
        Inl e \<Rightarrow> Inl e
      | Inr s1 \<Rightarrow> reactor_iterations n cb lcore reactor s1)"


subsection \<open>The host and the core mask\<close>

text \<open>
  Modelled from the spec: the host library (its build constant \<^verbatim>\<open>RTE_MAX_LCORE\<close>, the
  cores it reports as enabled, its master core, its allocators of rings and pools) and
  \<^verbatim>\<open>SPDK_POLLER_RING_SIZE\<close> of \<^verbatim>\<open>reactor.h\<close> are not in the sources; they are the fields of
  a parameter. An allocator returns \<open>None\<close> for a null pointer.
\<close>

record rte_host =
  RTE_MAX_LCORE :: nat
  rte_lcore_is_enabled :: "nat \<Rightarrow> bool"
  rte_get_master_lcore :: nat
  SPDK_POLLER_RING_SIZE :: nat
  rte_ring_create :: "string \<Rightarrow> nat \<Rightarrow> nat \<Rightarrow> rte_ring option"
  rte_mempool_create :: "nat \<Rightarrow> ptr list option"

text \<open>\<^verbatim>\<open>RTE_LCORE_FOREACH(i)\<close>: the enabled cores below \<^verbatim>\<open>RTE_MAX_LCORE\<close>, ascending.\<close>

definition RTE_LCORE_FOREACH :: "rte_host \<Rightarrow> nat list" where
  "RTE_LCORE_FOREACH h = filter (rte_lcore_is_enabled h) [0..<RTE_MAX_LCORE h]"

text \<open>
  Modelled from the spec: \<^verbatim>\<open>strtoull(nptr, &end, 16)\<close> of the C library, which the spec
  calls parsing "a hex-encoded 64-bit mask" with errors "on non-hex tail, range
  overflow". As the C standard has it: white space, an optional sign, an optional
  \<^verbatim>\<open>0x\<close> that a hexadecimal digit follows, then the longest run of hexadecimal digits.
  The result is the value, the rest of the string from \<^verbatim>\<open>end\<close> on, and \<^verbatim>\<open>errno\<close>. A C
  string is the list of its characters before the terminating zero.
\<close>

definition isspace :: "char \<Rightarrow> bool" where
  "isspace c = (let n = (of_char c :: nat) in n = 32 \<or> (9 \<le> n \<and> n \<le> 13))"

definition xdigit_value :: "char \<Rightarrow> nat option" where
  "xdigit_value c =
     (let n = (of_char c :: nat)
      in if 48 \<le> n \<and> n \<le> 57 then Some (n - 48)
         else if 97 \<le> n \<and> n \<le> 102 then Some (n - 87)
         else if 65 \<le> n \<and> n \<le> 70 then Some (n - 55)
         else None)"

definition isxdigit :: "char \<Rightarrow> bool" where
  "isxdigit c = (xdigit_value c \<noteq> None)"

fun hex_value :: "nat \<Rightarrow> string \<Rightarrow> nat" where
  "hex_value acc [] = acc"
| "hex_value acc (c # cs) =
     hex_value (acc * 16 + (case xdigit_value c of Some d \<Rightarrow> d | None \<Rightarrow> 0)) cs"

definition ERANGE :: int where
  "ERANGE = 34"

definition skip_sign :: "string \<Rightarrow> bool \<times> string" where
  "skip_sign s =
     (case s of
        [] \<Rightarrow> (False, s)
      | c # cs \<Rightarrow>
          if c = CHR ''-'' then (True, cs)
          else if c = CHR ''+'' then (False, cs)
          else (False, s))"

definition skip_0x :: "string \<Rightarrow> string" where
  "skip_0x s =
     (case s of
        z # x # d # ds \<Rightarrow>
          if z = CHR ''0'' \<and> (x = CHR ''x'' \<or> x = CHR ''X'') \<and> isxdigit d then d # ds else s
      | _ \<Rightarrow> s)"

definition strtoull16 :: "string \<Rightarrow> 64 word \<times> string \<times> int" where
  "strtoull16 nptr =
     (case skip_sign (dropWhile isspace nptr) of
        (neg, s2) \<Rightarrow>
          (let s3 = skip_0x s2;
               digits = takeWhile isxdigit s3;
               rest = dropWhile isxdigit s3;
               v = hex_value 0 digits
           in if digits = [] then (0, nptr, 0)
              else if 2 ^ 64 \<le> v then (- 1, rest, ERANGE)
              else (if neg then - (word_of_nat v) else word_of_nat v, rest, 0)))"

text \<open>
  The loop of \<^verbatim>\<open>spdk_app_parse_core_mask\<close> (lines 338 to 342), from counter \<open>i\<close> on.
\<close>

function clear_disabled :: "rte_host \<Rightarrow> nat \<Rightarrow> 64 word \<Rightarrow> 64 word" where
  "clear_disabled h i cpumask =
     (if i < RTE_MAX_LCORE h \<and> i < 64 then
        clear_disabled h (i + 1)
          (if cpumask AND push_bit i 1 \<noteq> 0 \<and> \<not> rte_lcore_is_enabled h i
           then cpumask AND NOT (push_bit i 1)
           else cpumask)
      else cpumask)"
  by pat_completeness auto
termination
  by (relation "measure (\<lambda>(h, i, cpumask). 64 - i)") auto

declare clear_disabled.simps [simp del]

text \<open>
  The string \<^verbatim>\<open>mask\<close> is \<open>maskp\<close>, \<open>None\<close> when it is null. \<open>cpumask\<close> is \<open>None\<close> for a null pointer and
  \<open>Some v\<close> for a pointer to a cell that holds \<open>v\<close>; the result is the return value and
  the cell afterwards.
\<close>

definition spdk_app_parse_core_mask ::
  "rte_host \<Rightarrow> string option \<Rightarrow> 64 word option \<Rightarrow> int \<times> 64 word option" where
  "spdk_app_parse_core_mask h maskp cpumask =
     (case maskp of
        None \<Rightarrow> (- 1, cpumask)
      | Some m \<Rightarrow>
          (case cpumask of
             None \<Rightarrow> (- 1, cpumask)
           | Some old \<Rightarrow>
               (case strtoull16 m of
                  (v, end, errno) \<Rightarrow>
                    if end \<noteq> [] \<or> errno \<noteq> 0 then (- 1, Some v)
                    else (0, Some (clear_disabled h 0 v)))))"

definition spdk_reactor_parse_mask :: "rte_host \<Rightarrow> string option \<Rightarrow> state \<Rightarrow> int \<times> state" where
  "spdk_reactor_parse_mask h maskp s =
     (let master_core = rte_get_master_lcore h
      in if state_value INITIALIZED \<le> state_value (g_reactor_state s) then (- 1, s)
         else
           (let s0 = s\<lparr>g_reactor_mask := 0\<rparr>
            in case maskp of
                 None \<Rightarrow>
                   (0, s0\<lparr>g_reactor_mask :=
                          fold (\<lambda>i m. m OR shl_1ULL (int i)) (RTE_LCORE_FOREACH h)
                            (g_reactor_mask s0)\<rparr>)
               | Some m \<Rightarrow>
                   (case spdk_app_parse_core_mask h maskp (Some (g_reactor_mask s0)) of
                      (ret, cell) \<Rightarrow>
                        let s1 = (case cell of None \<Rightarrow> s0 | Some v \<Rightarrow> s0\<lparr>g_reactor_mask := v\<rparr>)
                        in if ret \<noteq> 0 then (ret, s1)
                           else if g_reactor_mask s1 AND shl_1ULL (int master_core) = 0
                           then (- 1, s1)
                           else (0, s1))))"

text \<open>
  The two \<^verbatim>\<open>snprintf\<close> build the ring's name from a prefix and the core; the allocator
  takes both.
\<close>

definition spdk_reactor_construct :: "rte_host \<Rightarrow> nat \<Rightarrow> nat \<Rightarrow> state \<Rightarrow> error + state" where
  "spdk_reactor_construct h reactor lcore s =
     (let w = (g_reactors s reactor)
            \<lparr>r_lcore := lcore,
             active_pollers :=
               rte_ring_create h ''spdk_active_pollers_'' lcore (SPDK_POLLER_RING_SIZE h),
             events := rte_ring_create h ''spdk_event_queue_'' lcore 65536\<rparr>
      in if events w = None then Inl Abort
         else Inr (s\<lparr>g_reactors := (g_reactors s)(reactor := w)\<rparr>))"

text \<open>The loop of \<^verbatim>\<open>spdk_reactors_init\<close> (lines 452 to 458) over the cores left.\<close>

fun construct_reactors :: "rte_host \<Rightarrow> nat list \<Rightarrow> state \<Rightarrow> error + state" where
  "construct_reactors h [] s = Inr s"
| "construct_reactors h (i # cores) s =
     (if shl_1ULL (int i) AND spdk_app_get_core_mask s \<noteq> 0 then
        (case spdk_reactor_construct h i i s of
           Inl e \<Rightarrow> Inl e
         | Inr s1 \<Rightarrow> construct_reactors h cores (s1\<lparr>g_reactor_count := g_reactor_count s1 + 1\<rparr>))
      else construct_reactors h cores s)"

definition spdk_reactors_init :: "rte_host \<Rightarrow> string option \<Rightarrow> state \<Rightarrow> error + (int \<times> state)" where
  "spdk_reactors_init h maskp s =
     (case spdk_reactor_parse_mask h maskp s of
        (rc, s1) \<Rightarrow>
          if rc < 0 then Inr (rc, s1)
          else
            (case construct_reactors h (RTE_LCORE_FOREACH h) s1 of
               Inl e \<Rightarrow> Inl e
             | Inr s2 \<Rightarrow>
                 (let s3 = s2\<lparr>g_spdk_event_mempool := rte_mempool_create h 262144\<rparr>
                  in if g_spdk_event_mempool s3 = None then Inr (- 1, s3)
                     else Inr (rc, s3\<lparr>g_reactor_state := INITIALIZED\<rparr>))))"

text \<open>
  \<^verbatim>\<open>spdk_reactors_start\<close> on the thread of core \<open>lcore\<close>. Lines 412 to 414, the check of
  the master core and the write of \<^verbatim>\<open>RUNNING\<close>, are \<open>spdk_reactors_start_begin\<close>. The
  workers of the other cores run on their own threads and are not part of this
  thread's steps; the master's reactor runs in place when its \<^verbatim>\<open>lcore\<close> field is the
  master core.
\<close>

definition spdk_reactors_start_begin :: "rte_host \<Rightarrow> nat \<Rightarrow> state \<Rightarrow> error + state" where
  "spdk_reactors_start_begin h lcore s =
     (if rte_get_master_lcore h \<noteq> lcore then Inl Abort
      else Inr (s\<lparr>g_reactor_state := RUNNING\<rparr>))"

definition spdk_reactors_start ::
  "nat \<Rightarrow> callbacks \<Rightarrow> rte_host \<Rightarrow> nat \<Rightarrow> state \<Rightarrow> (error + state) option" where
  "spdk_reactors_start fuel cb h lcore s =
     (case spdk_reactors_start_begin h lcore s of
        Inl e \<Rightarrow> Some (Inl e)
      | Inr s1 \<Rightarrow>
          (let reactor = rte_get_master_lcore h
           in if r_lcore (g_reactors s1 reactor) \<noteq> rte_get_master_lcore h
              then Some (Inr (s1\<lparr>g_reactor_state := SHUTDOWN\<rparr>))
              else
                (case u_spdk_reactor_run fuel cb lcore reactor s1 of
                   None \<Rightarrow> None
                 | Some (Inl e) \<Rightarrow> Some (Inl e)
                 | Some (Inr s2) \<Rightarrow> Some (Inr (s2\<lparr>g_reactor_state := SHUTDOWN\<rparr>)))))"

subsection \<open>The words of the claims about the event queue\<close>

text \<open>
  The entries of the event queue of a core, and what one drain pass over a list of
  events should leave in the history: every event that is not null is run once and
  freed right after.
\<close>

definition queue_entries :: "nat \<Rightarrow> state \<Rightarrow> ptr list" where
  "queue_entries lcore s =
     (case events (g_reactors s lcore) of
        None \<Rightarrow> []
      | Some q \<Rightarrow> ring_entries q)"

fun drain_actions :: "ptr list \<Rightarrow> action list" where
  "drain_actions [] = []"
| "drain_actions (e # es) =
     (if e = NULL then [] else [EventRun e, EventFree e]) @ drain_actions es"

text \<open>
  A step only adds to the event queue of a core when the queue, if there was one, is
  still there and its old entries are the first of the new ones. Event callbacks that
  only enqueue satisfy this at every state; they do not dequeue.
\<close>

definition events_grow :: "nat \<Rightarrow> state \<Rightarrow> state \<Rightarrow> bool" where
  "events_grow lcore s s' =
     (case events (g_reactors s lcore) of
        None \<Rightarrow> True
      | Some q \<Rightarrow>
          (case events (g_reactors s' lcore) of
             None \<Rightarrow> False
           | Some q' \<Rightarrow> take (length (ring_entries q)) (ring_entries q') = ring_entries q))"

definition enqueue_only :: "callbacks \<Rightarrow> nat \<Rightarrow> bool" where
  "enqueue_only cb lcore =
     (\<forall>k event s s'. user_event_fn cb k event s = Inr s' \<longrightarrow> events_grow lcore s s')"

text \<open>
  The events of the application, and the number of the callback of one.
\<close>

fun is_user :: "spdk_event_fn \<Rightarrow> bool" where
  "is_user (FN_user k) = True"
| "is_user fn = False"

fun user_kind :: "spdk_event_fn \<Rightarrow> nat" where
  "user_kind (FN_user k) = k"
| "user_kind fn = 0"

text \<open>
  What an event callback of the application can work on besides the queues: the pool,
  the event records and the memory of the application.
\<close>

type_synonym heap = "ptr list option \<times> (ptr \<Rightarrow> spdk_event) \<times> app_memory"

definition heap_of :: "state \<Rightarrow> heap" where
  "heap_of s = (g_spdk_event_mempool s, event_mem s, app_mem s)"

text \<open>
  Event callbacks that only post: what the callback \<open>k\<close> run for the event \<open>e\<close> does to the
  pool, the event records and the memory of the application is \<open>act k e\<close>, a function of
  these three (it may take records from the pool and fill them in), and it adds the
  events \<open>posts k e\<close> at the end of the queue of the core.
\<close>

definition posting_only ::
  "callbacks \<Rightarrow> nat \<Rightarrow> (nat \<Rightarrow> ptr \<Rightarrow> heap \<Rightarrow> heap) \<Rightarrow> (nat \<Rightarrow> ptr \<Rightarrow> heap \<Rightarrow> ptr list) \<Rightarrow> bool" where
  "posting_only cb lcore act posts =
     (\<forall>k e s s'. user_event_fn cb k e s = Inr s' \<longrightarrow>
        heap_of s' = act k e (heap_of s) \<and>
        (\<forall>q. events (g_reactors s lcore) = Some q \<longrightarrow>
             events (g_reactors s' lcore) =
               Some (q\<lparr>ring_entries := ring_entries q @ posts k e (heap_of s)\<rparr>)))"

text \<open>
  What a drain pass over the events \<open>es\<close> should make of the pool, the event records and
  the memory of the application: for each event in order, its callback runs once and
  the record of the event goes back to the pool before the next callback runs.
  \<open>drain_posts\<close> is what the callbacks post meanwhile, and \<open>user_events\<close> says that every
  event is one of the application when its turn comes.
\<close>

definition put_back :: "ptr \<Rightarrow> heap \<Rightarrow> heap" where
  "put_back e h = (map_option (Cons e) (fst h), snd h)"

definition kind_of :: "heap \<Rightarrow> ptr \<Rightarrow> nat" where
  "kind_of h e = user_kind (ev_fn (fst (snd h) e))"

fun drain_effect :: "(nat \<Rightarrow> ptr \<Rightarrow> heap \<Rightarrow> heap) \<Rightarrow> ptr list \<Rightarrow> heap \<Rightarrow> heap" where
  "drain_effect act [] h = h"
| "drain_effect act (e # es) h = drain_effect act es (put_back e (act (kind_of h e) e h))"

fun drain_posts ::
  "(nat \<Rightarrow> ptr \<Rightarrow> heap \<Rightarrow> heap) \<Rightarrow> (nat \<Rightarrow> ptr \<Rightarrow> heap \<Rightarrow> ptr list) \<Rightarrow> ptr list \<Rightarrow> heap \<Rightarrow>
   ptr list" where
  "drain_posts act posts [] h = []"
| "drain_posts act posts (e # es) h =
     posts (kind_of h e) e h @
     drain_posts act posts es (put_back e (act (kind_of h e) e h))"

fun user_events :: "(nat \<Rightarrow> ptr \<Rightarrow> heap \<Rightarrow> heap) \<Rightarrow> ptr list \<Rightarrow> heap \<Rightarrow> bool" where
  "user_events act [] h = True"
| "user_events act (e # es) h =
     (e \<noteq> NULL \<and> is_user (ev_fn (fst (snd h) e)) \<and>
      user_events act es (put_back e (act (kind_of h e) e h)))"

subsection \<open>The words of the claims about the pollers\<close>

text \<open>The pollers invoked, in order, as the history has them.\<close>

fun poller_runs :: "action list \<Rightarrow> ptr list" where
  "poller_runs [] = []"
| "poller_runs (PollerRun p # as) = p # poller_runs as"
| "poller_runs (a # as) = poller_runs as"

text \<open>
  Callbacks of pollers and a timer tick that return and leave the reactors (the rings
  and the queues), the pollers and the global state as they found them: "no other ring
  mutations". What they do to the memory of the application is a function of that
  memory: \<open>pf f arg\<close> for the callback \<open>f\<close> of a poller called with \<open>arg\<close>, and \<open>tf\<close> for the
  timer tick.
\<close>

definition quiet_callbacks ::
  "callbacks \<Rightarrow> (nat \<Rightarrow> nat \<Rightarrow> app_memory \<Rightarrow> app_memory) \<Rightarrow> (app_memory \<Rightarrow> app_memory) \<Rightarrow> bool" where
  "quiet_callbacks cb pf tf =
     ((\<forall>f arg s. \<exists>s'. poller_fn cb f arg s = Inr s' \<and> g_reactors s' = g_reactors s \<and>
                         g_reactor_state s' = g_reactor_state s \<and>
                         poller_mem s' = poller_mem s \<and>
                         app_mem s' = pf f arg (app_mem s)) \<and>
      (\<forall>s. \<exists>s'. rte_timer_manage cb s = Inr s' \<and> g_reactors s' = g_reactors s \<and>
                  g_reactor_state s' = g_reactor_state s \<and>
                  poller_mem s' = poller_mem s \<and>
                  app_mem s' = tf (app_mem s)))"

text \<open>
  What the iteration that invokes the poller \<open>p\<close> does to the memory of the application:
  the timer tick, then the callback of \<open>p\<close> with the argument of \<open>p\<close>.
\<close>

definition poller_effect ::
  "(nat \<Rightarrow> nat \<Rightarrow> app_memory \<Rightarrow> app_memory) \<Rightarrow> (app_memory \<Rightarrow> app_memory) \<Rightarrow>
   (ptr \<Rightarrow> spdk_poller) \<Rightarrow> ptr \<Rightarrow> app_memory \<Rightarrow> app_memory" where
  "poller_effect pf tf pm p m = pf (p_fn (pm p)) (p_arg (pm p)) (tf m)"

subsection \<open>The words of the claims about the loop\<close>



subsection \<open>The words of the claims about registration\<close>

text \<open>
  The invariant of the spec's data model: a poller is in no ring, or it is registered on
  one core: in the ring of that core exactly once, in no other ring, with its \<^verbatim>\<open>lcore\<close>
  field equal to that core. The ring holds no more than its capacity.
\<close>

definition in_no_ring :: "state \<Rightarrow> ptr \<Rightarrow> bool" where
  "in_no_ring s poller =
     (\<forall>c r. active_pollers (g_reactors s c) = Some r \<longrightarrow> poller \<notin> set (ring_entries r))"

definition registered_on :: "state \<Rightarrow> ptr \<Rightarrow> nat \<Rightarrow> bool" where
  "registered_on s poller lcore =
     (p_lcore (poller_mem s poller) = lcore \<and>
      (\<exists>r. active_pollers (g_reactors s lcore) = Some r \<and>
           count_list (ring_entries r) poller = 1 \<and>
           length (ring_entries r) \<le> ring_capacity r) \<and>
      (\<forall>c r. c \<noteq> lcore \<and> active_pollers (g_reactors s c) = Some r \<longrightarrow>
             poller \<notin> set (ring_entries r)))"

subsection \<open>The words of the claims about the mask\<close>

text \<open>
  The parts of a mask string, for the statements about \<^verbatim>\<open>spdk_app_parse_core_mask\<close>: the
  hexadecimal digits of the number the string starts with (after white space, a sign and
  \<^verbatim>\<open>0x\<close>), the tail that follows the number (the whole string when it starts with no
  number), the value of the digits as an unbounded number, and the 64-bit value parsed.
\<close>

definition mask_body :: "string \<Rightarrow> string" where
  "mask_body m = skip_0x (snd (skip_sign (dropWhile isspace m)))"

definition mask_digits :: "string \<Rightarrow> string" where
  "mask_digits m = takeWhile isxdigit (mask_body m)"

definition mask_tail :: "string \<Rightarrow> string" where
  "mask_tail m = (if mask_digits m = [] then m else dropWhile isxdigit (mask_body m))"

definition mask_value :: "string \<Rightarrow> nat" where
  "mask_value m = hex_value 0 (mask_digits m)"

definition mask_parsed :: "string \<Rightarrow> 64 word" where
  "mask_parsed m =
     (if fst (skip_sign (dropWhile isspace m)) then - (word_of_nat (mask_value m))
      else word_of_nat (mask_value m))"

text \<open>A host with 128 core slots of which cores 0 and 1 are enabled; core 0 is the master.\<close>

definition host2 :: rte_host where
  "host2 =
     \<lparr>RTE_MAX_LCORE = 128,
      rte_lcore_is_enabled = (\<lambda>i. i < 2),
      rte_get_master_lcore = 0,
      SPDK_POLLER_RING_SIZE = 4096,
      rte_ring_create = (\<lambda>name lcore count. Some \<lparr>ring_entries = [], ring_capacity = count - 1\<rparr>),
      rte_mempool_create = (\<lambda>n. Some [100, 101, 102, 103])\<rparr>"

subsection \<open>Concrete states\<close>

text \<open>
  The state of a process that has just started: static storage is zero. Address 0
  of the function pointers is written \<open>FN_user 0\<close>.
\<close>

definition zero_state :: state where
  "zero_state =
     \<lparr>g_reactors = (\<lambda>i. \<lparr>r_lcore = 0, active_pollers = None, events = None\<rparr>),
      g_reactor_mask = 0, g_reactor_count = 0, g_reactor_state = INVALID,
      g_spdk_event_mempool = None,
      event_mem = (\<lambda>a. \<lparr>ev_lcore = 0, ev_fn = FN_user 0, ev_arg1 = NULL, ev_arg2 = NULL,
                          ev_next = NULL\<rparr>),
      poller_mem = (\<lambda>a. \<lparr>p_lcore = 0, p_fn = 0, p_arg = 0\<rparr>),
      app_mem = (\<lambda>a. 0),
      trace = []\<rparr>"

definition reactor_with :: "nat \<Rightarrow> ptr list \<Rightarrow> nat \<Rightarrow> ptr list \<Rightarrow> nat \<Rightarrow> spdk_reactor" where
  "reactor_with lcore pollers pcap evs ecap =
     \<lparr>r_lcore = lcore,
      active_pollers = Some \<lparr>ring_entries = pollers, ring_capacity = pcap\<rparr>,
      events = Some \<lparr>ring_entries = evs, ring_capacity = ecap\<rparr>\<rparr>"

text \<open>Callbacks that do nothing.\<close>

definition idle_callbacks :: callbacks where
  "idle_callbacks =
     \<lparr>user_event_fn = (\<lambda>k event s. Inr s),
      poller_fn = (\<lambda>f arg s. Inr s),
      rte_timer_manage = (\<lambda>s. Inr s)\<rparr>"

text \<open>
  Scenario 4 of the spec: the pollers A, B, C, D are the addresses 1, 2, 3, 4, the ring
  of core 0 holds them in this order, and the event at address 9 is the one that
  \<^verbatim>\<open>spdk_poller_unregister\<close> builds for B, without a completion.
\<close>

definition abcd_ring :: rte_ring where
  "abcd_ring = \<lparr>ring_entries = [1, 2, 3, 4], ring_capacity = 4095\<rparr>"

definition abcd_state :: state where
  "abcd_state =
     zero_state
       \<lparr>g_reactors := (g_reactors zero_state)
          (0 := \<lparr>r_lcore = 0,
                 active_pollers = Some abcd_ring,
                 events = Some \<lparr>ring_entries = [], ring_capacity = 65535\<rparr>\<rparr>),
        g_reactor_mask := 1,
        g_reactor_state := RUNNING,
        g_spdk_event_mempool := Some [],
        event_mem := (event_mem zero_state)
          (9 := \<lparr>ev_lcore = 0, ev_fn = FN_remove_poller, ev_arg1 = 0, ev_arg2 = 2,
                 ev_next = NULL\<rparr>)\<rparr>"

text \<open>
  A poller ring that is full: core 0 has a ring of capacity 1 that holds poller 1. The
  event at address 9 is the one \<^verbatim>\<open>spdk_poller_register\<close> builds for poller 2 on core 0,
  with the completion event at address 8.
\<close>

definition full_ring_state :: state where
  "full_ring_state =
     zero_state
       \<lparr>g_reactors := (g_reactors zero_state)(0 := reactor_with 0 [1] 1 [] 65535),
        g_reactor_mask := 1,
        g_reactor_state := RUNNING,
        g_spdk_event_mempool := Some [],
        event_mem := (event_mem zero_state)
          (9 := \<lparr>ev_lcore = 0, ev_fn = FN_add_poller, ev_arg1 = 0, ev_arg2 = 2, ev_next = 8\<rparr>,
           8 := \<lparr>ev_lcore = 0, ev_fn = FN_user 1, ev_arg1 = NULL, ev_arg2 = NULL,
                 ev_next = NULL\<rparr>)\<rparr>"

text \<open>Callbacks whose poller puts poller 5 into the ring of core 0 while it runs.\<close>

definition filling_callbacks :: callbacks where
  "filling_callbacks =
     idle_callbacks
       \<lparr>poller_fn := (\<lambda>f arg s.
          Inr (set_active_pollers 0 \<lparr>ring_entries = [5], ring_capacity = 1\<rparr> s))\<rparr>"


definition drain_state :: state where
  "drain_state =
     zero_state
       \<lparr>g_reactors := (g_reactors zero_state)(0 := reactor_with 0 [] 4095 [8, 7] 65535),
        g_reactor_mask := 1,
        g_reactor_state := RUNNING,
        g_spdk_event_mempool := Some [],
        event_mem := (\<lambda>a. \<lparr>ev_lcore = 0, ev_fn = FN_user 1, ev_arg1 = NULL, ev_arg2 = NULL,
                             ev_next = NULL\<rparr>)\<rparr>"

text \<open>
  Callbacks that keep a log in the cell 0 of the application's memory, as a decimal
  number: \<open>log_digit\<close> writes one more digit at its end. The event callback of
  \<open>noting_callbacks\<close> writes two digits, the address of its event and the record that is
  first in the pool (0 for an empty pool); then it allocates an event for core 0, with
  the callback 2, and posts it. \<open>noting_act\<close> and \<open>noting_posts\<close> say what this does to the
  pool, the event records and the memory, and which event is posted. In \<open>posting_state\<close>
  the queue of core 0 holds the events 8 and 7 and the pool the records 4 and 5.
\<close>

definition log_digit :: "nat \<Rightarrow> app_memory \<Rightarrow> app_memory" where
  "log_digit d m = m(0 := m 0 * 10 + d)"

definition note_event :: "ptr \<Rightarrow> ptr list option \<Rightarrow> app_memory \<Rightarrow> app_memory" where
  "note_event e pool m =
     log_digit (case pool of Some (x # xs) \<Rightarrow> x | _ \<Rightarrow> 0) (log_digit e m)"

definition noting_callbacks :: callbacks where
  "noting_callbacks =
     idle_callbacks
       \<lparr>user_event_fn := (\<lambda>k event s.
          case spdk_event_allocate 0 (FN_user 2) NULL NULL NULL
                 (s\<lparr>app_mem := note_event event (g_spdk_event_mempool s) (app_mem s)\<rparr>) of
            Inl e \<Rightarrow> Inl e
          | Inr (posted, s1) \<Rightarrow> spdk_event_call posted s1)\<rparr>"

definition noting_act :: "nat \<Rightarrow> ptr \<Rightarrow> heap \<Rightarrow> heap" where
  "noting_act k e h =
     (case h of
        (pool, em, m) \<Rightarrow>
          (map_option tl pool,
           em(hd (the pool) :=
                \<lparr>ev_lcore = 0, ev_fn = FN_user 2, ev_arg1 = NULL, ev_arg2 = NULL,
                 ev_next = NULL\<rparr>),
           note_event e pool m))"

definition noting_posts :: "nat \<Rightarrow> ptr \<Rightarrow> heap \<Rightarrow> ptr list" where
  "noting_posts k e h = [hd (the (fst h))]"

definition posting_state :: state where
  "posting_state = drain_state\<lparr>g_spdk_event_mempool := Some [4, 5]\<rparr>"

text \<open>
  A callback that drains: the event callbacks of \<open>marking_callbacks\<close> write the address of
  their event in the log. In \<open>reentrant_callbacks\<close> the callback 1 posts the event 6 and
  calls \<^verbatim>\<open>spdk_event_queue_run_all\<close> on core 0 itself; the other callbacks are the marking
  ones, and they are the only ones that run in the pass that the callback 1 starts. In
  \<open>reentry_state\<close> the queue of core 0 holds the event 8, with the callback 1, and the
  event 7; every other event has the callback 2.
\<close>

definition marking_callbacks :: callbacks where
  "marking_callbacks =
     idle_callbacks
       \<lparr>user_event_fn := (\<lambda>k event s. Inr (s\<lparr>app_mem := log_digit event (app_mem s)\<rparr>))\<rparr>"

definition reentrant_callbacks :: callbacks where
  "reentrant_callbacks =
     marking_callbacks
       \<lparr>user_event_fn := (\<lambda>k event s.
          if k = 1 then
            (case spdk_event_call 6 s of
               Inl e \<Rightarrow> Inl e
             | Inr s1 \<Rightarrow> spdk_event_queue_run_all marking_callbacks 0 s1)
          else user_event_fn marking_callbacks k event s)\<rparr>"

definition reentry_state :: state where
  "reentry_state =
     zero_state
       \<lparr>g_reactors := (g_reactors zero_state)(0 := reactor_with 0 [] 4095 [8, 7] 65535),
        g_reactor_mask := 1,
        g_reactor_state := RUNNING,
        g_spdk_event_mempool := Some [],
        event_mem := (\<lambda>a. \<lparr>ev_lcore = 0, ev_fn = FN_user (if a = 8 then 1 else 2),
                             ev_arg1 = NULL, ev_arg2 = NULL, ev_next = NULL\<rparr>)\<rparr>"

text \<open>
  Scenario 2 of the spec: the pollers A, B, C at the addresses 1, 2, 3, registered in
  this order on core 0, no event pending, the reactors running. The three pollers have
  the same callback, number 1, and each has its own address as argument. The callback
  of \<open>logging_callbacks\<close> writes its argument in the log.
\<close>

definition abc_state :: state where
  "abc_state =
     zero_state
       \<lparr>g_reactors := (g_reactors zero_state)(0 := reactor_with 0 [1, 2, 3] 4095 [] 65535),
        g_reactor_mask := 1,
        g_reactor_state := RUNNING,
        g_spdk_event_mempool := Some [],
        poller_mem := (\<lambda>a. \<lparr>p_lcore = 0, p_fn = 1, p_arg = a\<rparr>)\<rparr>"

definition logging_callbacks :: callbacks where
  "logging_callbacks =
     idle_callbacks
       \<lparr>poller_fn := (\<lambda>f arg s. Inr (s\<lparr>app_mem := log_digit arg (app_mem s)\<rparr>))\<rparr>"


text \<open>
  Scenario 3 of the spec: the mask \<^verbatim>\<open>0x3\<close>, the poller P at address 7 registered on core
  0, both event queues empty, two free event records at the addresses 20 and 21, and the
  completion event E at address 30, an event of the application for core 1.
\<close>

definition migrate_state :: state where
  "migrate_state =
     zero_state
       \<lparr>g_reactors := (g_reactors zero_state)
          (0 := reactor_with 0 [7] 4095 [] 65535,
           1 := reactor_with 1 [] 4095 [] 65535),
        g_reactor_mask := 3,
        g_reactor_count := 2,
        g_reactor_state := RUNNING,
        g_spdk_event_mempool := Some [20, 21],
        event_mem := (event_mem zero_state)
          (30 := \<lparr>ev_lcore = 1, ev_fn = FN_user 1, ev_arg1 = NULL, ev_arg2 = NULL,
                  ev_next = NULL\<rparr>)\<rparr>"

text \<open>The same, but the ring of core 1 has capacity 1 and holds the poller 5: it is full.\<close>

definition migrate_full_state :: state where
  "migrate_full_state =
     migrate_state
       \<lparr>g_reactors := (g_reactors migrate_state)(1 := reactor_with 1 [5] 1 [] 65535)\<rparr>"

section \<open>The rings\<close>

lemma rte_ring_dequeue_Cons:
  "ring_entries r = x # xs \<Longrightarrow> rte_ring_dequeue r t = (0, r\<lparr>ring_entries := xs\<rparr>, x)"
  by (simp add: rte_ring_dequeue_def)

lemma rte_ring_dequeue_Nil:
  "ring_entries r = [] \<Longrightarrow> rte_ring_dequeue r t = (- ENOENT, r, t)"
  by (simp add: rte_ring_dequeue_def)

lemma rte_ring_enqueue_room:
  "length (ring_entries r) < ring_capacity r \<Longrightarrow>
   rte_ring_enqueue r x = (0, r\<lparr>ring_entries := ring_entries r @ [x]\<rparr>)"
  by (simp add: rte_ring_enqueue_def)

lemma rte_ring_enqueue_full:
  "ring_capacity r \<le> length (ring_entries r) \<Longrightarrow> rte_ring_enqueue r x = (- ENOBUFS, r)"
  by (simp add: rte_ring_enqueue_def)

section \<open>The removal walk\<close>

text \<open>
  What the walk computes when the target is not in the ring: the loop runs from \<open>i\<close>
  to the count, and every iteration moves the head to the tail.
\<close>

lemma remove_poller_loop_absent:
  "poller \<notin> set (ring_entries r) \<Longrightarrow> length (ring_entries r) \<le> ring_capacity r \<Longrightarrow>
   \<exists>i' tmp'. remove_poller_loop poller i tmp r =
     Inr (i', tmp', r\<lparr>ring_entries := rotate (length (ring_entries r) - i) (ring_entries r)\<rparr>)"
proof (induction poller i tmp r rule: remove_poller_loop.induct)
  case (1 poller i tmp r)
  show ?case
  proof (cases "i < rte_ring_count r")
    case False
    then show ?thesis
      by (subst remove_poller_loop.simps) (simp add: rte_ring_count_def)
  next
    case True
    then obtain x xs where xs: "ring_entries r = x # xs"
      by (cases "ring_entries r") (auto simp: rte_ring_count_def)
    let ?r1 = "r\<lparr>ring_entries := xs\<rparr>"
    let ?r2 = "r\<lparr>ring_entries := xs @ [x]\<rparr>"
    have deq: "rte_ring_dequeue r tmp = (0, ?r1, x)"
      using xs by (rule rte_ring_dequeue_Cons)
    have ne: "x \<noteq> poller"
      using "1.prems"(1) xs by auto
    have enq: "rte_ring_enqueue ?r1 x = (0, ?r2)"
      using "1.prems"(2) xs by (simp add: rte_ring_enqueue_def)
    have "\<exists>i' tmp'. remove_poller_loop poller (i + 1) x ?r2 =
       Inr (i', tmp', ?r2\<lparr>ring_entries := rotate (length (ring_entries ?r2) - (i + 1)) (ring_entries ?r2)\<rparr>)"
    proof -
      have z: "\<not> (0::int) \<noteq> 0" by simp
      show ?thesis
        using "1.IH"(1) [OF True deq [symmetric] refl ne enq [symmetric] z] "1.prems" xs
        by simp
    qed
    moreover have "rotate (length (ring_entries ?r2) - (i + 1)) (ring_entries ?r2)
        = rotate (length (ring_entries r) - i) (ring_entries r)"
    proof -
      have "length (ring_entries r) - i = Suc (length xs - i)"
        using True xs by (simp add: rte_ring_count_def)
      then show ?thesis
        using xs by (simp add: rotate1_rotate_swap)
    qed
    ultimately show ?thesis
      using True deq ne enq by (subst remove_poller_loop.simps) simp
  qed
qed

text \<open>
  What the walk computes when the target is in the ring once, after \<open>us\<close> and before
  \<open>vs\<close>: once the target is dropped the count is one less, so the walk stops one
  entry early and the last entry of \<open>vs\<close> stays at the head.
\<close>

lemma remove_poller_loop_present:
  "ring_entries r = us @ poller # vs \<Longrightarrow> poller \<notin> set us \<Longrightarrow> poller \<notin> set vs \<Longrightarrow>
   i \<le> length vs \<Longrightarrow> length (ring_entries r) \<le> ring_capacity r \<Longrightarrow>
   \<exists>i' tmp'. remove_poller_loop poller i tmp r =
     Inr (i', tmp', r\<lparr>ring_entries := rotate (length vs - i - 1) (vs @ us)\<rparr>)"
proof (induction us arbitrary: i tmp vs r)
  case Nil
  let ?r1 = "r\<lparr>ring_entries := vs\<rparr>"
  have lt: "i < rte_ring_count r"
    using Nil by (simp add: rte_ring_count_def)
  have deq: "rte_ring_dequeue r tmp = (0, ?r1, poller)"
    using Nil by (simp add: rte_ring_dequeue_Cons)
  have "\<exists>i' tmp'. remove_poller_loop poller (i + 1) poller ?r1 =
     Inr (i', tmp', ?r1\<lparr>ring_entries := rotate (length (ring_entries ?r1) - (i + 1)) (ring_entries ?r1)\<rparr>)"
    using Nil by (intro remove_poller_loop_absent) simp_all
  then show ?case
    using lt deq by (subst remove_poller_loop.simps) simp
next
  case (Cons u us)
  let ?r1 = "r\<lparr>ring_entries := us @ poller # vs\<rparr>"
  let ?r2 = "r\<lparr>ring_entries := us @ poller # (vs @ [u])\<rparr>"
  have lt: "i < rte_ring_count r"
    using Cons.prems by (simp add: rte_ring_count_def)
  have deq: "rte_ring_dequeue r tmp = (0, ?r1, u)"
    using Cons.prems by (simp add: rte_ring_dequeue_Cons)
  have ne: "u \<noteq> poller"
    using Cons.prems by auto
  have enq: "rte_ring_enqueue ?r1 u = (0, ?r2)"
    using Cons.prems by (simp add: rte_ring_enqueue_def)
  have "\<exists>i' tmp'. remove_poller_loop poller (i + 1) u ?r2 =
     Inr (i', tmp', ?r2\<lparr>ring_entries := rotate (length (vs @ [u]) - (i + 1) - 1) ((vs @ [u]) @ us)\<rparr>)"
    using Cons.prems by (intro Cons.IH) simp_all
  then show ?case
    using lt deq ne enq by (subst remove_poller_loop.simps) simp
qed

text \<open>
  C1 (the code departs from the claim). The claim: after the removal walk the target
  is absent and the surviving pollers are dequeued in the order they had; for the ring
  (A, B, C, D), unregistering B leaves A, C, D. The code: with A, B, C, D at the
  addresses 1, 2, 3, 4 on core 0, the handler \<^verbatim>\<open>_spdk_event_remove_poller\<close> for B returns
  and leaves the ring D, A, C. The loop condition reads the count again after B has
  been dropped, so the walk ends before D is moved behind C.
\<close>

theorem remove_poller_abcd_order:
  "(case u_spdk_event_remove_poller 9 abcd_state of
      Inl e \<Rightarrow> None
    | Inr s \<Rightarrow> map_option ring_entries (active_pollers (g_reactors s 0))) = Some [4, 1, 3]"
  by (simp add: u_spdk_event_remove_poller_def abcd_state_def abcd_ring_def zero_state_def
      set_active_pollers_def remove_poller_loop.simps rte_ring_count_def rte_ring_dequeue_def
      rte_ring_enqueue_def)

text \<open>
  C2 (the code departs from the claim). The claim: the walk samples the length once and
  dequeues exactly that many entries, so every entry present at the start is examined
  once. The code: on the ring (A, B, C, D) with target B the count at the start is 4, and
  the loop ends with \<open>i = 3\<close> after three dequeues (A, B and C, the last value of
  \<open>tmp\<close>); D is never dequeued.
\<close>

theorem remove_poller_loop_abcd_dequeues:
  "rte_ring_count abcd_ring = 4 \<and>
   remove_poller_loop 2 0 NULL abcd_ring =
     Inr (3, 3, \<lparr>ring_entries = [4, 1, 3], ring_capacity = 4095\<rparr>)"
  by (simp add: abcd_ring_def remove_poller_loop.simps rte_ring_count_def rte_ring_dequeue_def
      rte_ring_enqueue_def)

section \<open>The core mask\<close>

text \<open>The loop clears the bits of the cores from \<open>i\<close> on that are not enabled.\<close>

lemma bit_clear_disabled:
  "bit (clear_disabled h i m) j \<longleftrightarrow>
     bit m j \<and> (i \<le> j \<and> j < RTE_MAX_LCORE h \<and> j < 64 \<longrightarrow> rte_lcore_is_enabled h j)"
proof (induction h i m rule: clear_disabled.induct)
  case (1 h i m)
  show ?case
  proof (cases "i < RTE_MAX_LCORE h \<and> i < 64")
    case False
    then show ?thesis
      by (subst clear_disabled.simps) auto
  next
    case True
    let ?m = "if m AND push_bit i 1 \<noteq> 0 \<and> \<not> rte_lcore_is_enabled h i
              then m AND NOT (push_bit i 1) else m"
    have step: "bit ?m j \<longleftrightarrow> bit m j \<and> (j = i \<longrightarrow> rte_lcore_is_enabled h i)"
    proof -
      have "m AND push_bit i 1 \<noteq> 0 \<longleftrightarrow> bit m i"
        by (simp add: and_exp_eq_0_iff_not_bit)
      moreover have "bit (m AND NOT (push_bit i 1)) j \<longleftrightarrow> bit m j \<and> j \<noteq> i"
        by (auto simp: bit_simps dest: bit_imp_le_length)
      ultimately show ?thesis
        by auto
    qed
    have "bit (clear_disabled h i m) j \<longleftrightarrow> bit (clear_disabled h (i + 1) ?m) j"
      using True by (subst clear_disabled.simps) simp
    also have "\<dots> \<longleftrightarrow> bit ?m j \<and>
        (i + 1 \<le> j \<and> j < RTE_MAX_LCORE h \<and> j < 64 \<longrightarrow> rte_lcore_is_enabled h j)"
      using "1.IH" [OF True] .
    also have "\<dots> \<longleftrightarrow> bit m j \<and>
        (i \<le> j \<and> j < RTE_MAX_LCORE h \<and> j < 64 \<longrightarrow> rte_lcore_is_enabled h j)"
      unfolding step using True by (auto simp: le_less Suc_le_eq)
    finally show ?thesis .
  qed
qed

lemma strtoull16_parts:
  "strtoull16 m =
     (if mask_digits m = [] then (0, m, 0)
      else if 2 ^ 64 \<le> mask_value m then (- 1, mask_tail m, ERANGE)
      else (mask_parsed m, mask_tail m, 0))"
  by (simp add: strtoull16_def mask_digits_def mask_tail_def mask_value_def mask_parsed_def
      mask_body_def Let_def split: prod.splits)

lemma strtoull16_error_iff:
  "(case strtoull16 m of (v, end, errno) \<Rightarrow> end \<noteq> [] \<or> errno \<noteq> 0) \<longleftrightarrow>
     mask_tail m \<noteq> [] \<or> 2 ^ 64 \<le> mask_value m"
  by (auto simp: strtoull16_parts ERANGE_def mask_tail_def mask_value_def)

text \<open>
  C7. \<^verbatim>\<open>spdk_app_parse_core_mask\<close> returns the error -1 exactly when the string or the
  output pointer is null, the string has a tail after its hexadecimal number, or the
  digits' value does not fit 64 bits; otherwise it returns 0 and the bitmap stored is the
  parsed value with the bit of every core that the host reports as not enabled cleared
  and the other bits unchanged. The host's \<^verbatim>\<open>RTE_MAX_LCORE\<close> bounds the loop beside 64; the
  statement is for hosts with at least 64 core slots (128 is the library's default).
\<close>

theorem parse_core_mask_spec:
  assumes "64 \<le> RTE_MAX_LCORE h"
  shows "(fst (spdk_app_parse_core_mask h maskp cpumask) = - 1 \<longleftrightarrow>
            maskp = None \<or> cpumask = None \<or>
            (\<exists>m. maskp = Some m \<and> (mask_tail m \<noteq> [] \<or> 2 ^ 64 \<le> mask_value m))) \<and>
         (fst (spdk_app_parse_core_mask h maskp cpumask) \<noteq> - 1 \<longrightarrow>
            fst (spdk_app_parse_core_mask h maskp cpumask) = 0 \<and>
            (\<exists>m w. maskp = Some m \<and> snd (spdk_app_parse_core_mask h maskp cpumask) = Some w \<and>
               (\<forall>i. bit w i \<longleftrightarrow> bit (mask_parsed m) i \<and> rte_lcore_is_enabled h i)))"
proof (cases maskp)
  case None
  then show ?thesis by (simp add: spdk_app_parse_core_mask_def)
next
  case (Some m)
  note m = this
  show ?thesis
  proof (cases cpumask)
    case None
    then show ?thesis using m by (simp add: spdk_app_parse_core_mask_def)
  next
    case (Some old)
    show ?thesis
    proof (cases "mask_tail m \<noteq> [] \<or> 2 ^ 64 \<le> mask_value m")
      case True
      then have "case strtoull16 m of (v, end, errno) \<Rightarrow> end \<noteq> [] \<or> errno \<noteq> 0"
        by (rule iffD2 [OF strtoull16_error_iff])
      then show ?thesis
        using m Some True by (auto simp: spdk_app_parse_core_mask_def split: prod.splits)
    next
      case False
      have ok: "\<not> (case strtoull16 m of (v, end, errno) \<Rightarrow> end \<noteq> [] \<or> errno \<noteq> 0)"
      proof
        assume "case strtoull16 m of (v, end, errno) \<Rightarrow> end \<noteq> [] \<or> errno \<noteq> 0"
        then have "mask_tail m \<noteq> [] \<or> 2 ^ 64 \<le> mask_value m"
          by (rule iffD1 [OF strtoull16_error_iff])
        with False show False by blast
      qed
      have v: "fst (strtoull16 m) = mask_parsed m"
        using False by (auto simp: strtoull16_parts mask_tail_def mask_parsed_def mask_value_def)
      have res: "spdk_app_parse_core_mask h maskp cpumask =
          (0, Some (clear_disabled h 0 (mask_parsed m)))"
        using m Some ok v by (auto simp: spdk_app_parse_core_mask_def split: prod.splits)
      have "bit (clear_disabled h 0 (mask_parsed m)) i \<longleftrightarrow>
          bit (mask_parsed m) i \<and> rte_lcore_is_enabled h i" for i
        using assms by (auto simp: bit_clear_disabled dest: bit_imp_le_length)
      then show ?thesis
        using m Some False res by simp
    qed
  qed
qed

theorem parse_core_mask_spec_witness:
  "(64::nat) \<le> RTE_MAX_LCORE host2 \<and>
   spdk_app_parse_core_mask host2 (Some ''0xff'') (Some 0) = (0, Some 3) \<and>
   fst (spdk_app_parse_core_mask host2 (Some ''0xZZ'') (Some 0)) = - 1 \<and>
   fst (spdk_app_parse_core_mask host2 (Some ''0x10000000000000000'') (Some 0)) = - 1"
proof -
  have h: "(64::nat) \<le> RTE_MAX_LCORE host2"
    by (simp add: host2_def)
  have ev: "strtoull16 ''0xff'' = (255, [], 0)" "strtoull16 ''0xZZ'' = (0, ''xZZ'', 0)"
    "strtoull16 ''0x10000000000000000'' = (- 1, [], ERANGE)"
    by (simp_all add: strtoull16_def skip_sign_def skip_0x_def isspace_def isxdigit_def
        xdigit_value_def)
  have cl: "clear_disabled host2 0 255 = 3"
    by (simp add: host2_def clear_disabled.simps)
  have r1: "spdk_app_parse_core_mask host2 (Some ''0xff'') (Some 0) = (0, Some 3)"
    by (simp add: spdk_app_parse_core_mask_def ev cl)
  have r2: "fst (spdk_app_parse_core_mask host2 (Some ''0xZZ'') (Some 0)) = - 1"
    by (simp add: spdk_app_parse_core_mask_def ev)
  have r3: "fst (spdk_app_parse_core_mask host2 (Some ''0x10000000000000000'') (Some 0)) = - 1"
    by (simp add: spdk_app_parse_core_mask_def ev ERANGE_def)
  from parse_core_mask_spec [OF h, of "Some ''0xff''" "Some 0"]
  have "fst (spdk_app_parse_core_mask host2 (Some ''0xff'') (Some 0)) \<noteq> - 1 \<longrightarrow>
        fst (spdk_app_parse_core_mask host2 (Some ''0xff'') (Some 0)) = 0"
    by blast
  with h r1 r2 r3 show ?thesis
    by simp
qed

section \<open>Initialisation\<close>

text \<open>The shift \<^verbatim>\<open>1ULL << i\<close> sets one bit, and the test against it reads that bit.\<close>

lemma bit_shl_1ULL: "bit (shl_1ULL i) j \<longleftrightarrow> j = nat (i mod 64)"
proof -
  have "nat (i mod 64) < 64"
    by simp
  then show ?thesis
    by (auto simp: shl_1ULL_def bit_simps)
qed

lemma and_shl_1ULL: "w AND shl_1ULL i \<noteq> 0 \<longleftrightarrow> bit w (nat (i mod 64))"
proof
  assume "w AND shl_1ULL i \<noteq> 0"
  then obtain j where "bit (w AND shl_1ULL i) j"
    by (auto simp: bit_eq_iff)
  then show "bit w (nat (i mod 64))"
    by (auto simp: bit_simps bit_shl_1ULL)
next
  assume "bit w (nat (i mod 64))"
  then have "bit (w AND shl_1ULL i) (nat (i mod 64))"
    by (simp add: bit_simps bit_shl_1ULL)
  then show "w AND shl_1ULL i \<noteq> 0"
    by auto
qed


lemma shl_1ULL_below: "i < 64 \<Longrightarrow> shl_1ULL (int i) = push_bit i 1"
  by (simp add: shl_1ULL_def nat_mod_distrib)

lemma nat_int_mod_64: "nat (int i mod 64) = i mod 64"
  by (simp add: nat_mod_distrib)






lemma parse_0x2: "spdk_app_parse_core_mask host2 (Some ''0x2'') (Some 0) = (0, Some 2)"
proof -
  have ev: "strtoull16 ''0x2'' = (2, [], 0)"
    by (simp add: strtoull16_def skip_sign_def skip_0x_def isspace_def isxdigit_def
        xdigit_value_def)
  have cl: "clear_disabled host2 0 2 = 2"
    by (simp add: host2_def clear_disabled.simps)
  show ?thesis
    by (simp add: spdk_app_parse_core_mask_def ev cl)
qed


text \<open>
  C8, as stated, fails on the code. The claim: when the parsed mask lacks the bit of the
  master core, \<^verbatim>\<open>spdk_reactors_init\<close> returns an error, the state remains \<open>INVALID\<close>, and no
  transition to \<open>RUNNING\<close> is possible. On the host with cores 0 and 1 and master core 0,
  the mask \<^verbatim>\<open>0x2\<close> is refused and the state stays \<open>INVALID\<close>; yet \<^verbatim>\<open>spdk_reactors_start\<close>
  called on the master core writes \<open>RUNNING\<close> whatever the state is, so the transition is
  possible.
\<close>

theorem reactors_start_after_failed_init:
  "(case spdk_reactors_init host2 (Some ''0x2'') zero_state of
      Inl e \<Rightarrow> False
    | Inr (rc, s) \<Rightarrow>
        rc = - 1 \<and> g_reactor_state s = INVALID \<and>
        (case spdk_reactors_start_begin host2 0 s of
           Inl e \<Rightarrow> False
         | Inr s' \<Rightarrow> g_reactor_state s' = RUNNING))"
proof -
  have c: "(2 :: 64 word) AND shl_1ULL (int (rte_get_master_lcore host2)) = 0"
    by (simp add: host2_def shl_1ULL_def)
  have m: "rte_get_master_lcore host2 = 0"
    by (simp add: host2_def)
  show ?thesis
    using c by (simp add: spdk_reactors_init_def spdk_reactor_parse_mask_def Let_def parse_0x2
        zero_state_def spdk_reactors_start_begin_def m)
qed

text \<open>
  C8, amended. The master core is below 64, so that the mask has a bit for it. When the
  mask string is not null, \<^verbatim>\<open>spdk_app_parse_core_mask\<close> accepts it and the parsed mask
  lacks the bit of the master core, \<^verbatim>\<open>spdk_reactors_init\<close> returns the error -1 and leaves
  the state as it was: a state that is \<open>INVALID\<close> remains \<open>INVALID\<close>, and the call advances
  it neither to \<open>INITIALIZED\<close> nor to \<open>RUNNING\<close>. No reactor is constructed and no pool is
  created.
\<close>

theorem reactors_init_master_bit_missing:
  assumes "spdk_app_parse_core_mask h (Some m) (Some 0) = (0, Some w)"
    and "rte_get_master_lcore h < 64"
    and "\<not> bit w (rte_get_master_lcore h)"
  shows "\<exists>s'. spdk_reactors_init h (Some m) s = Inr (- 1, s') \<and>
           g_reactor_state s' = g_reactor_state s \<and>
           g_reactors s' = g_reactors s \<and>
           g_reactor_count s' = g_reactor_count s \<and>
           g_spdk_event_mempool s' = g_spdk_event_mempool s"
proof -
  have "nat (int (rte_get_master_lcore h) mod 64) = rte_get_master_lcore h"
    using assms(2) by (simp add: nat_int_mod_64)
  then have "w AND shl_1ULL (int (rte_get_master_lcore h)) = 0"
    using assms(3) and_shl_1ULL [of w "int (rte_get_master_lcore h)"] by simp
  then show ?thesis
    using assms(1) by (simp add: spdk_reactors_init_def spdk_reactor_parse_mask_def Let_def)
qed

theorem reactors_init_master_bit_missing_witness:
  "spdk_app_parse_core_mask host2 (Some ''0x2'') (Some 0) = (0, Some 2) \<and>
   rte_get_master_lcore host2 < 64 \<and>
   \<not> bit (2 :: 64 word) (rte_get_master_lcore host2) \<and>
   g_reactor_state zero_state = INVALID \<and>
   (\<exists>s'. spdk_reactors_init host2 (Some ''0x2'') zero_state = Inr (- 1, s') \<and>
         g_reactor_state s' = INVALID \<and> g_spdk_event_mempool s' = None \<and>
         events (g_reactors s' 0) = None)"
proof -
  have a: "g_reactor_state zero_state = INVALID" "g_spdk_event_mempool zero_state = None"
    "events (g_reactors zero_state 0) = None"
    by (simp_all add: zero_state_def)
  have b: "rte_get_master_lcore host2 < 64"
    by (simp add: host2_def)
  have c: "\<not> bit (2 :: 64 word) (rte_get_master_lcore host2)"
    by (simp add: host2_def)
  show ?thesis
    using a b c parse_0x2 reactors_init_master_bit_missing [OF parse_0x2 b c, of zero_state]
    by auto
qed





section \<open>Enqueue failures\<close>

lemma set_active_pollers_same:
  assumes "active_pollers (g_reactors t c) = Some r"
  shows "set_active_pollers c r t = t"
proof -
  have "(g_reactors t c)\<lparr>active_pollers := Some r\<rparr> = g_reactors t c"
    using assms by (cases "g_reactors t c") simp
  then show ?thesis
    by (simp add: set_active_pollers_def)
qed

lemma add_poller_full:
  assumes "active_pollers (g_reactors s (ev_arg1 (event_mem s event))) = Some r"
    and "ring_capacity r \<le> length (ring_entries r)"
  shows "u_spdk_event_add_poller event s =
     (let poller = ev_arg2 (event_mem s event);
          s1 = s\<lparr>poller_mem := (poller_mem s)(poller :=
                 (poller_mem s poller)\<lparr>p_lcore := r_lcore (g_reactors s (ev_arg1 (event_mem s event)))\<rparr>)\<rparr>
      in if ev_next (event_mem s event) \<noteq> NULL
         then spdk_event_call (ev_next (event_mem s event)) s1 else Inr s1)"
  using assms
  by (simp add: u_spdk_event_add_poller_def Let_def rte_ring_enqueue_full set_active_pollers_same)

lemma remove_poller_loop_enqueue_fails:
  assumes "i < rte_ring_count r"
    and "rte_ring_dequeue r tmp = (rc0, r1, tmp1)"
    and "tmp1 \<noteq> poller"
    and "fst (rte_ring_enqueue r1 tmp1) \<noteq> 0"
  shows "remove_poller_loop poller i tmp r = Inl Exit"
  using assms by (subst remove_poller_loop.simps) (auto split: prod.splits)

lemma reactor_poll_enqueue_fails:
  assumes "active_pollers (g_reactors s reactor) = Some r"
    and "ring_entries r = p # ps"
    and "poller_fn cb (p_fn (poller_mem s p)) (p_arg (poller_mem s p))
           ((set_active_pollers reactor (r\<lparr>ring_entries := ps\<rparr>) s)
              \<lparr>trace := trace s @ [PollerRun p]\<rparr>) = Inr s3"
    and "active_pollers (g_reactors s3 reactor) = Some r3"
    and "ring_capacity r3 \<le> length (ring_entries r3)"
  shows "reactor_poll cb reactor s = Inl Exit"
  using assms
  by (simp add: reactor_poll_def rte_ring_dequeue_Cons Let_def run_callback_def
      set_active_pollers_def rte_ring_enqueue_full ENOBUFS_def)

text \<open>
  C9. When the handler of a register event finds the poller ring of the target core
  full, it does not end the process: it returns, the \<^verbatim>\<open>lcore\<close> field of the poller is the
  target core, no poller ring has changed (a poller that was in no ring is in none), and
  the completion event, when there is one and its queue has room, has been posted. The
  other two paths end the process with \<^verbatim>\<open>exit\<close> when their enqueue fails: the removal walk
  when the entry it puts back is refused, and the poller step of the loop when the ring
  is full after the callback.
\<close>

theorem add_poller_ignores_full_ring:
  assumes "active_pollers (g_reactors s reactor) = Some r"
    and "ring_capacity r \<le> length (ring_entries r)"
    and "ev_arg1 (event_mem s event) = reactor"
    and "ev_arg2 (event_mem s event) = poller"
    and "ev_next (event_mem s event) = next"
    and "next = NULL \<or>
         (events (g_reactors s (ev_lcore (event_mem s next))) = Some q \<and>
          length (ring_entries q) < ring_capacity q)"
  shows "(\<exists>s'. u_spdk_event_add_poller event s = Inr s' \<and>
            p_lcore (poller_mem s' poller) = r_lcore (g_reactors s reactor) \<and>
            (\<forall>c. active_pollers (g_reactors s' c) = active_pollers (g_reactors s c)) \<and>
            (next \<noteq> NULL \<longrightarrow>
               events (g_reactors s' (ev_lcore (event_mem s next))) =
                 Some (q\<lparr>ring_entries := ring_entries q @ [next]\<rparr>))) \<and>
         (i < rte_ring_count r' \<and> rte_ring_dequeue r' tmp = (rcx, rx, x) \<and> x \<noteq> target \<and>
          fst (rte_ring_enqueue rx x) \<noteq> 0 \<longrightarrow>
            remove_poller_loop target i tmp r' = Inl Exit) \<and>
         (active_pollers (g_reactors t reactor') = Some ra \<and> ring_entries ra = p # ps \<and>
          poller_fn cb (p_fn (poller_mem t p)) (p_arg (poller_mem t p))
            ((set_active_pollers reactor' (ra\<lparr>ring_entries := ps\<rparr>) t)
               \<lparr>trace := trace t @ [PollerRun p]\<rparr>) = Inr u \<and>
          active_pollers (g_reactors u reactor') = Some ru \<and>
          ring_capacity ru \<le> length (ring_entries ru) \<longrightarrow>
            reactor_poll cb reactor' t = Inl Exit)"
proof (intro conjI impI)
  let ?s1 = "s\<lparr>poller_mem := (poller_mem s)(poller :=
                 (poller_mem s poller)\<lparr>p_lcore := r_lcore (g_reactors s reactor)\<rparr>)\<rparr>"
  have e: "u_spdk_event_add_poller event s =
      (if next \<noteq> NULL then spdk_event_call next ?s1 else Inr ?s1)"
    using add_poller_full [of s event r] assms(1-5) by (simp add: Let_def)
  show "\<exists>s'. u_spdk_event_add_poller event s = Inr s' \<and>
            p_lcore (poller_mem s' poller) = r_lcore (g_reactors s reactor) \<and>
            (\<forall>c. active_pollers (g_reactors s' c) = active_pollers (g_reactors s c)) \<and>
            (next \<noteq> NULL \<longrightarrow>
               events (g_reactors s' (ev_lcore (event_mem s next))) =
                 Some (q\<lparr>ring_entries := ring_entries q @ [next]\<rparr>))"
  proof (cases "next = NULL")
    case True
    then show ?thesis
      using e by simp
  next
    case False
    then show ?thesis
      using e assms(6)
      by (simp add: spdk_event_call_def Let_def rte_ring_enqueue_room set_events_def)
  qed
next
  assume "i < rte_ring_count r' \<and> rte_ring_dequeue r' tmp = (rcx, rx, x) \<and> x \<noteq> target \<and>
          fst (rte_ring_enqueue rx x) \<noteq> 0"
  then show "remove_poller_loop target i tmp r' = Inl Exit"
    using remove_poller_loop_enqueue_fails by blast
next
  assume "active_pollers (g_reactors t reactor') = Some ra \<and> ring_entries ra = p # ps \<and>
          poller_fn cb (p_fn (poller_mem t p)) (p_arg (poller_mem t p))
            ((set_active_pollers reactor' (ra\<lparr>ring_entries := ps\<rparr>) t)
               \<lparr>trace := trace t @ [PollerRun p]\<rparr>) = Inr u \<and>
          active_pollers (g_reactors u reactor') = Some ru \<and>
          ring_capacity ru \<le> length (ring_entries ru)"
  then show "reactor_poll cb reactor' t = Inl Exit"
    using reactor_poll_enqueue_fails by blast
qed

text \<open>
  An instance of each part. For the removal walk the instance is a ring that holds
  two entries with capacity 1: after a dequeue, the enqueue of the ring model is refused
  only on a ring that held more than its capacity. For the poller step the callback
  fills the ring while its poller is out of it.
\<close>

theorem add_poller_ignores_full_ring_witness:
  "(case u_spdk_event_add_poller 9 full_ring_state of
      Inl e \<Rightarrow> False
    | Inr s' \<Rightarrow>
        p_lcore (poller_mem s' 2) = 0 \<and>
        map_option ring_entries (active_pollers (g_reactors s' 0)) = Some [1] \<and>
        map_option ring_entries (events (g_reactors s' 0)) = Some [8]) \<and>
   remove_poller_loop 9 0 NULL \<lparr>ring_entries = [1, 2], ring_capacity = 1\<rparr> = Inl Exit \<and>
   reactor_poll filling_callbacks 0 full_ring_state = Inl Exit"
proof -
  let ?r = "\<lparr>ring_entries = [1], ring_capacity = 1\<rparr>"
  let ?q = "\<lparr>ring_entries = [], ring_capacity = 65535\<rparr>"
  let ?r' = "\<lparr>ring_entries = [1, 2], ring_capacity = 1\<rparr>"
  let ?r1 = "\<lparr>ring_entries = [2], ring_capacity = 1\<rparr>"
  let ?r3 = "\<lparr>ring_entries = [5], ring_capacity = 1\<rparr>"
  let ?t3 = "set_active_pollers 0 ?r3
      ((set_active_pollers 0 (?r\<lparr>ring_entries := []\<rparr>) full_ring_state)
         \<lparr>trace := trace full_ring_state @ [PollerRun 1]\<rparr>)"
  have h1: "active_pollers (g_reactors full_ring_state 0) = Some ?r"
    by (simp add: full_ring_state_def reactor_with_def)
  have h2: "ring_capacity ?r \<le> length (ring_entries ?r)"
    by simp
  have h3: "ev_arg1 (event_mem full_ring_state 9) = 0"
    and h4: "ev_arg2 (event_mem full_ring_state 9) = 2"
    and h5: "ev_next (event_mem full_ring_state 9) = 8"
    by (simp_all add: full_ring_state_def)
  have h6: "8 = NULL \<or>
      (events (g_reactors full_ring_state (ev_lcore (event_mem full_ring_state 8))) = Some ?q \<and>
       length (ring_entries ?q) < ring_capacity ?q)"
    by (simp add: full_ring_state_def reactor_with_def)
  have k1: "0 < rte_ring_count ?r' \<and> rte_ring_dequeue ?r' NULL = (0, ?r1, 1) \<and> (1::nat) \<noteq> 9 \<and>
      fst (rte_ring_enqueue ?r1 1) \<noteq> 0"
    by (simp add: rte_ring_count_def rte_ring_dequeue_def rte_ring_enqueue_def ENOBUFS_def)
  have k2: "active_pollers (g_reactors full_ring_state 0) = Some ?r \<and> ring_entries ?r = 1 # [] \<and>
      poller_fn filling_callbacks (p_fn (poller_mem full_ring_state 1))
        (p_arg (poller_mem full_ring_state 1))
        ((set_active_pollers 0 (?r\<lparr>ring_entries := []\<rparr>) full_ring_state)
           \<lparr>trace := trace full_ring_state @ [PollerRun 1]\<rparr>) = Inr ?t3 \<and>
      active_pollers (g_reactors ?t3 0) = Some ?r3 \<and>
      ring_capacity ?r3 \<le> length (ring_entries ?r3)"
    using h1 by (simp add: filling_callbacks_def idle_callbacks_def set_active_pollers_def)
  note T = add_poller_ignores_full_ring [OF h1 h2 h3 h4 h5 h6,
      where i = 0 and r' = ?r' and tmp = NULL and rcx = 0 and rx = ?r1 and x = 1
        and target = 9 and t = full_ring_state and reactor' = 0 and ra = ?r and p = 1
        and ps = "[]" and cb = filling_callbacks and u = ?t3 and ru = ?r3]
  from T obtain s' where s': "u_spdk_event_add_poller 9 full_ring_state = Inr s'"
    "p_lcore (poller_mem s' 2) = r_lcore (g_reactors full_ring_state 0)"
    "\<forall>c. active_pollers (g_reactors s' c) = active_pollers (g_reactors full_ring_state c)"
    "events (g_reactors s' (ev_lcore (event_mem full_ring_state 8))) =
       Some (?q\<lparr>ring_entries := ring_entries ?q @ [8]\<rparr>)"
    by auto
  have c1: "p_lcore (poller_mem s' 2) = 0"
    "map_option ring_entries (active_pollers (g_reactors s' 0)) = Some [1]"
    "map_option ring_entries (events (g_reactors s' 0)) = Some [8]"
    using s'(2-4) by (simp_all add: full_ring_state_def reactor_with_def)
  from T k1 have c2: "remove_poller_loop 9 0 NULL ?r' = Inl Exit"
    by blast
  from T k2 have c3: "reactor_poll filling_callbacks 0 full_ring_state = Inl Exit"
    by blast
  show ?thesis
    using s'(1) c1 c2 c3 by simp
qed

section \<open>Draining the event queue\<close>

text \<open>The handlers of this file only add to the event queues.\<close>

lemma events_grow_refl: "events_grow l s s"
  by (simp add: events_grow_def split: option.splits)

lemma events_grow_trans:
  "events_grow l s t \<Longrightarrow> events_grow l t u \<Longrightarrow> events_grow l s u"
proof -
  have *: "take (length xs) zs = xs"
    if "take (length xs) ys = xs" "take (length ys) zs = ys" for xs ys zs :: "ptr list"
  proof -
    have "length xs \<le> length ys"
      using that(1) by (metis length_take min.cobounded1 min.commute)
    then have "take (length xs) zs = take (length xs) (take (length ys) zs)"
      by (simp add: min_def)
    then show ?thesis
      using that by simp
  qed
  show "events_grow l s t \<Longrightarrow> events_grow l t u \<Longrightarrow> events_grow l s u"
    by (auto simp: events_grow_def split: option.splits intro: *)
qed

lemma events_grow_cong:
  "events (g_reactors s1 l) = events (g_reactors s l) \<Longrightarrow>
   events (g_reactors t1 l) = events (g_reactors t l) \<Longrightarrow>
   events_grow l s1 t1 = events_grow l s t"
  by (simp add: events_grow_def split: option.splits)

lemma events_set_active_pollers:
  "events (g_reactors (set_active_pollers c r s) l) = events (g_reactors s l)"
  by (simp add: set_active_pollers_def)

lemma spdk_event_call_grow:
  "spdk_event_call e s = Inr s' \<Longrightarrow> events_grow l s s'"
  by (auto simp: spdk_event_call_def Let_def events_grow_def set_events_def rte_ring_enqueue_def
      split: option.splits prod.splits if_splits)

lemma spdk_event_allocate_reactors:
  "spdk_event_allocate lcore fn a1 a2 nx s = Inr (x, s') \<Longrightarrow> g_reactors s' = g_reactors s"
  by (auto simp: spdk_event_allocate_def split: option.splits prod.splits if_splits)

lemma spdk_poller_register_grow:
  "spdk_poller_register poller lcore complete s = Inr s' \<Longrightarrow> events_grow l s s'"
proof -
  assume a: "spdk_poller_register poller lcore complete s = Inr s'"
  then obtain x s1 where
    al: "spdk_event_allocate lcore FN_add_poller lcore poller complete s = Inr (x, s1)"
    and c: "spdk_event_call x s1 = Inr s'"
    by (auto simp: spdk_poller_register_def split: sum.splits)
  have "events_grow l s1 s'"
    using c by (rule spdk_event_call_grow)
  then show ?thesis
    using spdk_event_allocate_reactors [OF al] by (simp add: events_grow_def)
qed

lemma add_poller_grow:
  assumes "u_spdk_event_add_poller e s = Inr s'"
  shows "events_grow l s s'"
proof -
  let ?reactor = "ev_arg1 (event_mem s e)"
  let ?poller = "ev_arg2 (event_mem s e)"
  let ?next = "ev_next (event_mem s e)"
  let ?s1 = "s\<lparr>poller_mem := (poller_mem s)(?poller :=
                 (poller_mem s ?poller)\<lparr>p_lcore := r_lcore (g_reactors s ?reactor)\<rparr>)\<rparr>"
  obtain r where r: "active_pollers (g_reactors s ?reactor) = Some r"
    using assms by (auto simp: u_spdk_event_add_poller_def Let_def split: option.splits)
  obtain rc r' where enq: "rte_ring_enqueue r ?poller = (rc, r')"
    by (cases "rte_ring_enqueue r ?poller")
  let ?s2 = "set_active_pollers ?reactor r' ?s1"
  have res: "(if ?next \<noteq> NULL then spdk_event_call ?next ?s2 else Inr ?s2) = Inr s'"
    using assms r enq by (simp add: u_spdk_event_add_poller_def Let_def)
  have ev: "events (g_reactors ?s2 l) = events (g_reactors s l)"
    by (simp add: set_active_pollers_def)
  have "events_grow l ?s2 s'"
    using res by (auto simp: events_grow_refl spdk_event_call_grow split: if_splits)
  then show ?thesis
    using ev by (simp add: events_grow_def)
qed

lemma remove_poller_grow:
  assumes "u_spdk_event_remove_poller e s = Inr s'"
  shows "events_grow l s s'"
proof -
  let ?reactor = "ev_arg1 (event_mem s e)"
  let ?poller = "ev_arg2 (event_mem s e)"
  let ?next = "ev_next (event_mem s e)"
  obtain r where r: "active_pollers (g_reactors s ?reactor) = Some r"
    using assms by (auto simp: u_spdk_event_remove_poller_def Let_def split: option.splits)
  obtain i tmp r' where lp: "remove_poller_loop ?poller 0 NULL r = Inr (i, tmp, r')"
    using assms r
    by (auto simp: u_spdk_event_remove_poller_def Let_def split: sum.splits)
  let ?s1 = "set_active_pollers ?reactor r' s"
  have res: "(if ?next \<noteq> NULL then spdk_event_call ?next ?s1 else Inr ?s1) = Inr s'"
    using assms r lp by (simp add: u_spdk_event_remove_poller_def Let_def)
  have ev: "events (g_reactors ?s1 l) = events (g_reactors s l)"
    by (simp add: set_active_pollers_def)
  have "events_grow l ?s1 s'"
    using res by (auto simp: events_grow_refl spdk_event_call_grow split: if_splits)
  then show ?thesis
    using ev by (simp add: events_grow_def)
qed

lemma event_fn_call_grow:
  assumes "enqueue_only cb l"
    and "event_fn_call cb lcore e s = Inr s'"
  shows "events_grow l s s'"
proof (cases "ev_fn (event_mem s e)")
  case FN_add_poller
  then show ?thesis
    using assms(2) by (simp add: event_fn_call_def add_poller_grow)
next
  case FN_remove_poller
  then show ?thesis
    using assms(2) by (simp add: event_fn_call_def remove_poller_grow)
next
  case FN_poller_migrate
  then show ?thesis
    using assms(2)
    by (simp add: event_fn_call_def u_spdk_poller_migrate_def Let_def spdk_poller_register_grow)
next
  case (FN_user k)
  then show ?thesis
    using assms by (auto simp: event_fn_call_def enqueue_only_def)
qed

lemma take_take_prefix:
  fixes xs ys zs :: "'a list"
  assumes "take (length xs) ys = xs" "take (length ys) zs = ys"
  shows "take (length xs) zs = xs"
proof -
  have "length xs \<le> length ys"
    using assms(1) by (metis length_take min.cobounded1 min.commute)
  then have "take (length xs) zs = take (length xs) (take (length ys) zs)"
    by (simp add: min_def)
  then show ?thesis
    using assms by simp
qed

lemma run_single_step:
  assumes grow: "enqueue_only cb lcore"
    and q: "events (g_reactors s lcore) = Some q" "ring_entries q = e # es"
    and r: "spdk_event_queue_run_single cb lcore s = Inr s'"
  shows "trace s' = trace s @ (if e = NULL then [] else [EventRun e, EventFree e]) \<and>
         (\<exists>q'. events (g_reactors s' lcore) = Some q' \<and>
               take (length es) (ring_entries q') = es)"
proof -
  let ?q1 = "q\<lparr>ring_entries := es\<rparr>"
  let ?s1 = "set_events lcore ?q1 s"
  let ?s1t = "?s1\<lparr>trace := trace ?s1 @ [EventRun e]\<rparr>"
  have deq: "rte_ring_dequeue q NULL = (0, ?q1, e)"
    using q(2) by (rule rte_ring_dequeue_Cons)
  have ev1: "events (g_reactors ?s1t lcore) = Some ?q1" "trace ?s1 = trace s"
    by (simp_all add: set_events_def)
  show ?thesis
  proof (cases "e = NULL")
    case True
    then have "s' = ?s1"
      using r q(1) deq by (simp add: spdk_event_queue_run_single_def Let_def)
    then show ?thesis
      using True by (simp add: set_events_def)
  next
    case False
    then have r': "(case run_callback (event_fn_call cb lcore e) ?s1t of
                      Inl e \<Rightarrow> Inl e
                    | Inr s2 \<Rightarrow> spdk_event_free e s2) = Inr s'"
      using r q(1) deq by (simp add: spdk_event_queue_run_single_def Let_def)
    then obtain s2 where s2: "run_callback (event_fn_call cb lcore e) ?s1t = Inr s2"
      and fr: "spdk_event_free e s2 = Inr s'"
      by (auto split: sum.splits)
    from s2 obtain u where u: "event_fn_call cb lcore e ?s1t = Inr u"
      and s2u: "s2 = u\<lparr>trace := trace ?s1t\<rparr>"
      by (auto simp: run_callback_def split: sum.splits)
    have "events_grow lcore ?s1t u"
      using grow u by (rule event_fn_call_grow)
    then obtain q' where q': "events (g_reactors u lcore) = Some q'"
      "take (length es) (ring_entries q') = es"
      using ev1(1) by (auto simp: events_grow_def split: option.splits)
    have s': "g_reactors s' = g_reactors u" "trace s' = trace s2 @ [EventFree e]"
      using fr s2u by (auto simp: spdk_event_free_def split: option.splits)
    show ?thesis
      using False q' s' s2u ev1(2) by simp
  qed
qed

lemma run_count_trace:
  assumes grow: "enqueue_only cb lcore"
  shows "events (g_reactors s lcore) = Some q \<Longrightarrow> take (length xs) (ring_entries q) = xs \<Longrightarrow>
         spdk_event_queue_run cb lcore (length xs) s = Inr s' \<Longrightarrow>
         trace s' = trace s @ drain_actions xs"
proof (induction xs arbitrary: s q)
  case Nil
  then show ?case by simp
next
  case (Cons x xs)
  from Cons.prems(2) obtain rest where rest: "ring_entries q = x # rest"
    "take (length xs) rest = xs"
    by (cases "ring_entries q") auto
  from Cons.prems(3) obtain s1 where s1: "spdk_event_queue_run_single cb lcore s = Inr s1"
    and run: "spdk_event_queue_run cb lcore (length xs) s1 = Inr s'"
    by (auto split: sum.splits)
  from run_single_step [OF grow Cons.prems(1) rest(1) s1]
  obtain q1 where q1: "trace s1 = trace s @ (if x = NULL then [] else [EventRun x, EventFree x])"
    "events (g_reactors s1 lcore) = Some q1" "take (length rest) (ring_entries q1) = rest"
    by auto
  have "take (length xs) (ring_entries q1) = xs"
    using rest(2) q1(3) by (rule take_take_prefix)
  from Cons.IH [OF q1(2) this run] show ?case
    using q1(1) by simp
qed

lemma run_all_drain_actions:
  assumes "enqueue_only cb lcore"
    and "spdk_event_queue_run_all cb lcore s = Inr s'"
  shows "trace s' = trace s @ drain_actions (queue_entries lcore s)"
proof (cases "events (g_reactors s lcore)")
  case None
  then show ?thesis
    using assms(2)
    by (simp add: spdk_event_queue_run_all_def spdk_event_queue_count_def queue_entries_def)
next
  case (Some q)
  have "spdk_event_queue_run cb lcore (length (ring_entries q)) s = Inr s'"
    using assms(2) Some
    by (simp add: spdk_event_queue_run_all_def spdk_event_queue_count_def rte_ring_count_def)
  from run_count_trace [OF assms(1) Some _ this]
  have "trace s' = trace s @ drain_actions (ring_entries q)"
    by simp
  then show ?thesis
    using Some by (simp add: queue_entries_def)
qed

text \<open>
  One event of the application run with callbacks that only post: the callback sees the
  queue without the event, and the record is in the pool when the step returns.
\<close>

lemma run_single_posting:
  assumes post: "posting_only cb lcore act posts"
    and q: "events (g_reactors s lcore) = Some q" "ring_entries q = e # es"
    and e: "e \<noteq> NULL" "is_user (ev_fn (event_mem s e))"
    and r: "spdk_event_queue_run_single cb lcore s = Inr s'"
  shows "heap_of s' = put_back e (act (kind_of (heap_of s) e) e (heap_of s)) \<and>
         events (g_reactors s' lcore) =
           Some (q\<lparr>ring_entries := es @ posts (kind_of (heap_of s) e) e (heap_of s)\<rparr>)"
proof -
  from e(2) obtain k where k: "ev_fn (event_mem s e) = FN_user k"
    by (cases "ev_fn (event_mem s e)") auto
  then have kind: "kind_of (heap_of s) e = k"
    by (simp add: kind_of_def heap_of_def)
  let ?q1 = "q\<lparr>ring_entries := es\<rparr>"
  let ?s1 = "set_events lcore ?q1 s"
  let ?s1t = "?s1\<lparr>trace := trace ?s1 @ [EventRun e]\<rparr>"
  have deq: "rte_ring_dequeue q NULL = (0, ?q1, e)"
    using q(2) by (rule rte_ring_dequeue_Cons)
  have s1: "event_mem ?s1t = event_mem s" "events (g_reactors ?s1t lcore) = Some ?q1"
    "heap_of ?s1t = heap_of s"
    by (simp_all add: set_events_def heap_of_def)
  have r': "(case run_callback (event_fn_call cb lcore e) ?s1t of
               Inl e \<Rightarrow> Inl e
             | Inr s2 \<Rightarrow> spdk_event_free e s2) = Inr s'"
    using r q(1) deq e(1) by (simp add: spdk_event_queue_run_single_def Let_def)
  then obtain s2 where s2: "run_callback (event_fn_call cb lcore e) ?s1t = Inr s2"
    and fr: "spdk_event_free e s2 = Inr s'"
    by (auto split: sum.splits)
  from s2 obtain u where u: "event_fn_call cb lcore e ?s1t = Inr u"
    and s2u: "s2 = u\<lparr>trace := trace ?s1t\<rparr>"
    by (auto simp: run_callback_def split: sum.splits)
  have "user_event_fn cb k e ?s1t = Inr u"
    using u k s1(1) by (simp add: event_fn_call_def)
  with post have cbk: "heap_of u = act k e (heap_of ?s1t)"
    "\<forall>q. events (g_reactors ?s1t lcore) = Some q \<longrightarrow>
         events (g_reactors u lcore) =
           Some (q\<lparr>ring_entries := ring_entries q @ posts k e (heap_of ?s1t)\<rparr>)"
    unfolding posting_only_def by blast+
  have qu: "events (g_reactors u lcore) = Some (q\<lparr>ring_entries := es @ posts k e (heap_of s)\<rparr>)"
    using cbk(2) s1(2,3) by simp
  obtain pool where pool: "g_spdk_event_mempool s2 = Some pool"
    using fr by (auto simp: spdk_event_free_def split: option.splits)
  have s': "s' = s2\<lparr>g_spdk_event_mempool := Some (e # pool),
                    trace := trace s2 @ [EventFree e]\<rparr>"
    using fr pool by (simp add: spdk_event_free_def rte_mempool_put_def)
  have "heap_of s' = put_back e (heap_of u)"
    using s' s2u pool by (simp add: heap_of_def put_back_def)
  moreover have "events (g_reactors s' lcore) = events (g_reactors u lcore)"
    using s' s2u by simp
  ultimately show ?thesis
    using cbk(1) s1(3) qu kind by simp
qed

lemma run_count_posting:
  assumes post: "posting_only cb lcore act posts"
  shows "events (g_reactors s lcore) = Some q \<Longrightarrow>
         ring_entries q = xs @ rest \<Longrightarrow>
         user_events act xs (heap_of s) \<Longrightarrow>
         spdk_event_queue_run cb lcore (length xs) s = Inr s' \<Longrightarrow>
         heap_of s' = drain_effect act xs (heap_of s) \<and>
         (\<exists>q'. events (g_reactors s' lcore) = Some q' \<and>
               ring_entries q' = rest @ drain_posts act posts xs (heap_of s))"
proof (induction xs arbitrary: s q rest)
  case Nil
  then show ?case by simp
next
  case (Cons x xs)
  let ?h1 = "put_back x (act (kind_of (heap_of s) x) x (heap_of s))"
  let ?p = "posts (kind_of (heap_of s) x) x (heap_of s)"
  from Cons.prems(3) have x: "x \<noteq> NULL" "is_user (ev_fn (event_mem s x))"
    and xs: "user_events act xs ?h1"
    by (simp_all add: heap_of_def)
  from Cons.prems(4) obtain s1 where s1: "spdk_event_queue_run_single cb lcore s = Inr s1"
    and run: "spdk_event_queue_run cb lcore (length xs) s1 = Inr s'"
    by (auto split: sum.splits)
  have q2: "ring_entries q = x # (xs @ rest)"
    using Cons.prems(2) by simp
  from run_single_posting [OF post Cons.prems(1) q2 x s1]
  have st: "heap_of s1 = ?h1"
    "events (g_reactors s1 lcore) = Some (q\<lparr>ring_entries := (xs @ rest) @ ?p\<rparr>)"
    by simp_all
  let ?q1 = "q\<lparr>ring_entries := (xs @ rest) @ ?p\<rparr>"
  have q1: "ring_entries ?q1 = xs @ (rest @ ?p)"
    by simp
  have xs1: "user_events act xs (heap_of s1)"
    using xs st(1) by simp
  from Cons.IH [OF st(2) q1 xs1 run]
  obtain q' where res: "heap_of s' = drain_effect act xs (heap_of s1)"
    "events (g_reactors s' lcore) = Some q'"
    "ring_entries q' = (rest @ ?p) @ drain_posts act posts xs (heap_of s1)"
    by blast
  have "heap_of s' = drain_effect act (x # xs) (heap_of s)"
    using res(1) st(1) by simp
  moreover have "ring_entries q' = rest @ drain_posts act posts (x # xs) (heap_of s)"
    using res(3) st(1) by simp
  ultimately show ?case
    using res(2) by blast
qed

text \<open>
  C3, as stated, fails on the code. The claim is for every state of the queue and says
  nothing of the callbacks: the pass runs exactly the events it counted, and an event
  enqueued during the pass is not run by it. \<^verbatim>\<open>spdk_event_queue_run_all\<close> is a public
  function, and nothing stops a callback from calling it. The queue of core 0 holds the
  events 8 and 7, so the pass counts 2. The callback of 8 posts the event 6 and drains
  the queue: the events 7 and 6 are run and freed while the callback of 8 has not
  returned. When the pass ends the queue is empty, the log of the application has 7 and
  6, and the pool has three records, that of the event 6 among them: the event posted
  during the pass was run within it, and the pass itself, which counted 2, dequeued one
  event only.
\<close>

theorem drain_with_reentrant_callback:
  "spdk_event_queue_count 0 reentry_state = 2 \<and>
   queue_entries 0 reentry_state = [8, 7] \<and>
   g_spdk_event_mempool reentry_state = Some [] \<and>
   app_mem reentry_state 0 = 0 \<and>
   (case spdk_event_queue_run_all reentrant_callbacks 0 reentry_state of
      Inl e \<Rightarrow> False
    | Inr s' \<Rightarrow>
        queue_entries 0 s' = [] \<and>
        g_spdk_event_mempool s' = Some [8, 6, 7] \<and>
        app_mem s' 0 = 76)"
  by (simp add: spdk_event_queue_run_all_def spdk_event_queue_count_def reentry_state_def
      zero_state_def reactor_with_def rte_ring_count_def numeral_2_eq_2
      spdk_event_queue_run_single_def rte_ring_dequeue_def Let_def set_events_def
      run_callback_def event_fn_call_def reentrant_callbacks_def marking_callbacks_def
      idle_callbacks_def spdk_event_call_def rte_ring_enqueue_def spdk_event_free_def
      rte_mempool_put_def queue_entries_def log_digit_def)

text \<open>
  C3, amended: the callbacks only add events to the queue of the core; none drains it.
  A drain pass takes the count of the queue once, before it runs anything, and the pass
  that returns has added to the history exactly this: for each entry that the queue held
  at that moment, in order, the run of its callback and then the return of its record to
  the pool (nothing for a null entry). So every event of the snapshot is run once and
  freed right after its callback returns, and the events that callbacks enqueue during
  the pass are not run by it.

  The state says the same. When the snapshot holds events of the application and their
  callbacks only post, the pool, the event records and the memory of the application
  after the pass are those of \<open>drain_effect\<close>: the callbacks of the events of the snapshot
  have run once each, in order, and the record of each event went back to the pool when
  its callback returned, before the next one ran. The queue holds the events posted
  during the pass, all of them and nothing else.
\<close>

theorem event_queue_run_all_snapshot:
  assumes "spdk_event_queue_run_all cb lcore s = Inr s'"
  shows "spdk_event_queue_count lcore s = length (queue_entries lcore s) \<and>
         (enqueue_only cb lcore \<longrightarrow>
            trace s' = trace s @ drain_actions (queue_entries lcore s)) \<and>
         (posting_only cb lcore act posts \<and>
          user_events act (queue_entries lcore s) (heap_of s) \<longrightarrow>
            heap_of s' = drain_effect act (queue_entries lcore s) (heap_of s) \<and>
            queue_entries lcore s' =
              drain_posts act posts (queue_entries lcore s) (heap_of s))"
proof (intro conjI impI)
  show "spdk_event_queue_count lcore s = length (queue_entries lcore s)"
    by (simp add: spdk_event_queue_count_def queue_entries_def rte_ring_count_def
        split: option.splits)
next
  assume "enqueue_only cb lcore"
  then show "trace s' = trace s @ drain_actions (queue_entries lcore s)"
    using assms by (rule run_all_drain_actions)
next
  assume h: "posting_only cb lcore act posts \<and>
    user_events act (queue_entries lcore s) (heap_of s)"
  have "heap_of s' = drain_effect act (queue_entries lcore s) (heap_of s) \<and>
        queue_entries lcore s' = drain_posts act posts (queue_entries lcore s) (heap_of s)"
  proof (cases "events (g_reactors s lcore)")
    case None
    then show ?thesis
      using assms
      by (simp add: spdk_event_queue_run_all_def spdk_event_queue_count_def queue_entries_def)
  next
    case (Some q)
    have run: "spdk_event_queue_run cb lcore (length (ring_entries q)) s = Inr s'"
      using assms Some
      by (simp add: spdk_event_queue_run_all_def spdk_event_queue_count_def rte_ring_count_def)
    have qe: "queue_entries lcore s = ring_entries q"
      using Some by (simp add: queue_entries_def)
    have sp: "ring_entries q = ring_entries q @ []"
      by simp
    from h have p: "posting_only cb lcore act posts"
      and l: "user_events act (ring_entries q) (heap_of s)"
      using qe by simp_all
    from run_count_posting [OF p Some sp l run]
    obtain q' where res: "heap_of s' = drain_effect act (ring_entries q) (heap_of s)"
      "events (g_reactors s' lcore) = Some q'"
      "ring_entries q' = [] @ drain_posts act posts (ring_entries q) (heap_of s)"
      by blast
    have "queue_entries lcore s' = drain_posts act posts (ring_entries q) (heap_of s)"
      using res(2,3) by (simp add: queue_entries_def)
    then show ?thesis
      using res(1) qe by simp
  qed
  then show "heap_of s' = drain_effect act (queue_entries lcore s) (heap_of s)"
    and "queue_entries lcore s' = drain_posts act posts (queue_entries lcore s) (heap_of s)"
    by simp_all
qed

lemma noting_callbacks_run:
  assumes "user_event_fn noting_callbacks k e s = Inr s'"
  shows "\<exists>x pool q. g_spdk_event_mempool s = Some (x # pool) \<and>
           events (g_reactors s 0) = Some q \<and>
           s' = set_events 0 (q\<lparr>ring_entries := ring_entries q @ [x]\<rparr>)
                  (s\<lparr>app_mem := note_event e (g_spdk_event_mempool s) (app_mem s),
                     g_spdk_event_mempool := Some pool,
                     event_mem := (event_mem s)(x :=
                       \<lparr>ev_lcore = 0, ev_fn = FN_user 2, ev_arg1 = NULL, ev_arg2 = NULL,
                        ev_next = NULL\<rparr>)\<rparr>)"
proof -
  let ?s0 = "s\<lparr>app_mem := note_event e (g_spdk_event_mempool s) (app_mem s)\<rparr>"
  from assms obtain x s1 where al: "spdk_event_allocate 0 (FN_user 2) NULL NULL NULL ?s0 =
      Inr (x, s1)"
    and c: "spdk_event_call x s1 = Inr s'"
    by (auto simp: noting_callbacks_def idle_callbacks_def split: sum.splits)
  from al obtain pool where pool: "g_spdk_event_mempool s = Some (x # pool)"
    and s1: "s1 = ?s0\<lparr>g_spdk_event_mempool := Some pool,
                      event_mem := (event_mem ?s0)(x :=
                        \<lparr>ev_lcore = 0, ev_fn = FN_user 2, ev_arg1 = NULL, ev_arg2 = NULL,
                         ev_next = NULL\<rparr>)\<rparr>"
    by (auto simp: spdk_event_allocate_def rte_mempool_get_def
        split: option.splits list.splits if_splits)
  have l: "ev_lcore (event_mem s1 x) = 0"
    using s1 by simp
  from c l obtain q where q: "events (g_reactors s1 0) = Some q"
    "s' = set_events 0 (q\<lparr>ring_entries := ring_entries q @ [x]\<rparr>) s1"
    by (auto simp: spdk_event_call_def Let_def rte_ring_enqueue_def ENOBUFS_def
        split: option.splits if_splits)
  have "events (g_reactors s 0) = Some q"
    using q(1) s1 by simp
  then show ?thesis
    using pool q(2) s1 by simp
qed

lemma noting_callbacks_post: "posting_only noting_callbacks 0 noting_act noting_posts"
  unfolding posting_only_def
proof (intro allI impI)
  fix k e s s'
  assume "user_event_fn noting_callbacks k e s = Inr s'"
  from noting_callbacks_run [OF this]
  obtain x pool q where r: "g_spdk_event_mempool s = Some (x # pool)"
    "events (g_reactors s 0) = Some q"
    "s' = set_events 0 (q\<lparr>ring_entries := ring_entries q @ [x]\<rparr>)
            (s\<lparr>app_mem := note_event e (g_spdk_event_mempool s) (app_mem s),
               g_spdk_event_mempool := Some pool,
               event_mem := (event_mem s)(x :=
                 \<lparr>ev_lcore = 0, ev_fn = FN_user 2, ev_arg1 = NULL, ev_arg2 = NULL,
                  ev_next = NULL\<rparr>)\<rparr>)"
    by blast
  show "heap_of s' = noting_act k e (heap_of s) \<and>
      (\<forall>q. events (g_reactors s 0) = Some q \<longrightarrow>
           events (g_reactors s' 0) =
             Some (q\<lparr>ring_entries := ring_entries q @ noting_posts k e (heap_of s)\<rparr>))"
    using r by (simp add: heap_of_def noting_act_def noting_posts_def set_events_def)
qed

theorem event_queue_run_all_snapshot_witness:
  "enqueue_only noting_callbacks 0 \<and>
   posting_only noting_callbacks 0 noting_act noting_posts \<and>
   queue_entries 0 posting_state = [8, 7] \<and>
   user_events noting_act (queue_entries 0 posting_state) (heap_of posting_state) \<and>
   g_spdk_event_mempool posting_state = Some [4, 5] \<and>
   app_mem posting_state 0 = 0 \<and>
   (case spdk_event_queue_run_all noting_callbacks 0 posting_state of
      Inl e \<Rightarrow> False
    | Inr s' \<Rightarrow>
        trace s' = [EventRun 8, EventFree 8, EventRun 7, EventFree 7] \<and>
        g_spdk_event_mempool s' = Some [7, 5] \<and>
        app_mem s' 0 = 8478 \<and>
        queue_entries 0 s' = [4, 8])"
proof -
  have g: "enqueue_only noting_callbacks 0"
    unfolding enqueue_only_def
  proof (intro allI impI)
    fix k event s s'
    assume "user_event_fn noting_callbacks k event s = Inr s'"
    from noting_callbacks_run [OF this] show "events_grow 0 s s'"
      by (auto simp: events_grow_def set_events_def)
  qed
  note p = noting_callbacks_post
  have q: "queue_entries 0 posting_state = [8, 7]" "trace posting_state = []"
    "g_spdk_event_mempool posting_state = Some [4, 5]" "app_mem posting_state = (\<lambda>a. 0)"
    "event_mem posting_state =
       (\<lambda>a. \<lparr>ev_lcore = 0, ev_fn = FN_user 1, ev_arg1 = NULL, ev_arg2 = NULL,
              ev_next = NULL\<rparr>)"
    by (simp_all add: queue_entries_def posting_state_def drain_state_def zero_state_def
        reactor_with_def)
  have h: "heap_of posting_state =
      (Some [4, 5],
       (\<lambda>a. \<lparr>ev_lcore = 0, ev_fn = FN_user 1, ev_arg1 = NULL, ev_arg2 = NULL,
              ev_next = NULL\<rparr>),
       (\<lambda>a. 0))"
    by (simp add: heap_of_def q)
  have l: "user_events noting_act (queue_entries 0 posting_state) (heap_of posting_state)"
    by (simp add: q(1) h noting_act_def put_back_def kind_of_def)
  have e: "case spdk_event_queue_run_all noting_callbacks 0 posting_state of
      Inl e \<Rightarrow> False
    | Inr s' \<Rightarrow> True"
    by (simp add: spdk_event_queue_run_all_def spdk_event_queue_count_def posting_state_def
        drain_state_def zero_state_def reactor_with_def rte_ring_count_def numeral_2_eq_2
        spdk_event_queue_run_single_def rte_ring_dequeue_def Let_def set_events_def
        run_callback_def event_fn_call_def noting_callbacks_def idle_callbacks_def
        spdk_event_allocate_def rte_mempool_get_def
        spdk_event_call_def rte_ring_enqueue_def spdk_event_free_def rte_mempool_put_def)
  then obtain s' where s': "spdk_event_queue_run_all noting_callbacks 0 posting_state = Inr s'"
    by (auto split: sum.splits)
  note T = event_queue_run_all_snapshot [OF s', of noting_act noting_posts]
  from T g have tr: "trace s' = [EventRun 8, EventFree 8, EventRun 7, EventFree 7]"
    by (simp add: q)
  from T p l have st: "heap_of s' =
      drain_effect noting_act (queue_entries 0 posting_state) (heap_of posting_state)"
    "queue_entries 0 s' =
      drain_posts noting_act noting_posts (queue_entries 0 posting_state)
        (heap_of posting_state)"
    by blast+
  have "fst (drain_effect noting_act [8, 7] (heap_of posting_state)) = Some [7, 5]"
    "snd (snd (drain_effect noting_act [8, 7] (heap_of posting_state))) 0 = 8478"
    "drain_posts noting_act noting_posts [8, 7] (heap_of posting_state) = [4, 8]"
    by (simp_all add: h noting_act_def noting_posts_def put_back_def kind_of_def
        note_event_def log_digit_def)
  with st have pm: "g_spdk_event_mempool s' = Some [7, 5]" "app_mem s' 0 = 8478"
    "queue_entries 0 s' = [4, 8]"
    by (simp_all add: q(1) heap_of_def prod_eq_iff)
  show ?thesis
    using g p l q(1,3,4) s' tr pm by simp
qed

section \<open>Round robin\<close>

lemma poller_runs_append: "poller_runs (xs @ ys) = poller_runs xs @ poller_runs ys"
  by (induction xs rule: poller_runs.induct) auto

lemma nth_concat_replicate:
  "k < n * length xs \<Longrightarrow> concat (replicate n xs) ! k = xs ! (k mod length xs)"
proof (induction n arbitrary: k)
  case 0
  then show ?case by simp
next
  case (Suc n)
  show ?case
  proof (cases "k < length xs")
    case True
    then show ?thesis by (simp add: nth_append)
  next
    case False
    then have "k - length xs < n * length xs"
      using Suc.prems by simp
    from Suc.IH [OF this] show ?thesis
      using False by (simp add: nth_append le_mod_geq)
  qed
qed

lemma take_concat_replicate:
  assumes "xs \<noteq> []"
  shows "take n (concat (replicate n xs)) = map (\<lambda>k. xs ! (k mod length xs)) [0..<n]"
proof (rule nth_equalityI)
  have "n \<le> n * length xs"
    using assms by (cases xs) auto
  then show "length (take n (concat (replicate n xs))) =
      length (map (\<lambda>k. xs ! (k mod length xs)) [0..<n])"
    by (simp add: length_concat sum_list_replicate)
  fix i
  assume "i < length (take n (concat (replicate n xs)))"
  then have i: "i < n" by simp
  have "i < n * length xs"
    using i \<open>n \<le> n * length xs\<close> by (rule less_le_trans)
  then show "take n (concat (replicate n xs)) ! i =
      map (\<lambda>k. xs ! (k mod length xs)) [0..<n] ! i"
    using i by (simp add: nth_concat_replicate)
qed

lemma reactor_iterations_snoc:
  "reactor_iterations (Suc n) cb lcore reactor s =
     (case reactor_iterations n cb lcore reactor s of
        Inl e \<Rightarrow> Inl e
      | Inr s1 \<Rightarrow> reactor_iteration cb lcore reactor s1)"
proof (induction n arbitrary: s)
  case 0
  then show ?case by (simp split: sum.splits)
next
  case (Suc n)
  show ?case
  proof (cases "reactor_iteration cb lcore reactor s")
    case (Inl e)
    then show ?thesis by simp
  next
    case (Inr s1)
    have "reactor_iterations (Suc (Suc n)) cb lcore reactor s =
        reactor_iterations (Suc n) cb lcore reactor s1"
      using Inr by simp
    also have "\<dots> = (case reactor_iterations n cb lcore reactor s1 of
        Inl e \<Rightarrow> Inl e
      | Inr s2 \<Rightarrow> reactor_iteration cb lcore reactor s2)"
      by (rule Suc.IH)
    also have "reactor_iterations n cb lcore reactor s1 =
        reactor_iterations (Suc n) cb lcore reactor s"
      using Inr by simp
    finally show ?thesis .
  qed
qed

text \<open>
  One iteration with quiet callbacks and no event pending: the timer tick, then the
  head of the ring is invoked and moved to the tail.
\<close>

lemma reactor_iteration_quiet:
  assumes quiet: "quiet_callbacks cb pf tf"
    and ring: "active_pollers (g_reactors s reactor) = Some r"
    and cap: "length (ring_entries r) \<le> ring_capacity r"
    and idle: "spdk_event_queue_count lcore s = 0"
  shows "\<exists>s'. reactor_iteration cb lcore reactor s = Inr s' \<and>
           active_pollers (g_reactors s' reactor) =
             Some (r\<lparr>ring_entries := rotate1 (ring_entries r)\<rparr>) \<and>
           events (g_reactors s' lcore) = events (g_reactors s lcore) \<and>
           g_reactor_state s' = g_reactor_state s \<and>
           poller_mem s' = poller_mem s \<and>
           app_mem s' =
             (case ring_entries r of
                [] \<Rightarrow> tf (app_mem s)
              | p # ps \<Rightarrow> poller_effect pf tf (poller_mem s) p (app_mem s)) \<and>
           trace s' = trace s @ TimerManage #
             (case ring_entries r of [] \<Rightarrow> [] | p # ps \<Rightarrow> [PollerRun p])"
proof -
  have drain: "spdk_event_queue_run_all cb lcore s = Inr s"
    using idle by (simp add: spdk_event_queue_run_all_def)
  let ?s1 = "s\<lparr>trace := trace s @ [TimerManage]\<rparr>"
  from quiet obtain t where t: "rte_timer_manage cb ?s1 = Inr t"
    "g_reactors t = g_reactors ?s1" "g_reactor_state t = g_reactor_state ?s1"
    "poller_mem t = poller_mem ?s1" "app_mem t = tf (app_mem ?s1)"
    unfolding quiet_callbacks_def by blast
  let ?s2 = "t\<lparr>trace := trace ?s1\<rparr>"
  have tick: "run_callback (rte_timer_manage cb) ?s1 = Inr ?s2"
    using t(1) by (simp add: run_callback_def)
  have it: "reactor_iteration cb lcore reactor s = reactor_poll cb reactor ?s2"
    using drain tick by (simp add: reactor_iteration_def)
  have ring2: "active_pollers (g_reactors ?s2 reactor) = Some r"
    using t(2) ring by simp
  show ?thesis
  proof (cases "ring_entries r")
    case Nil
    then have "reactor_poll cb reactor ?s2 = Inr ?s2"
      using ring2 by (simp add: reactor_poll_def rte_ring_dequeue_Nil ENOENT_def)
    moreover have "r\<lparr>ring_entries := rotate1 (ring_entries r)\<rparr> = r"
      using Nil by simp
    ultimately show ?thesis
      using it Nil ring t(2-5) by simp
  next
    case (Cons p ps)
    let ?r1 = "r\<lparr>ring_entries := ps\<rparr>"
    let ?s3 = "(set_active_pollers reactor ?r1 ?s2)\<lparr>trace := trace ?s2 @ [PollerRun p]\<rparr>"
    have pm3: "poller_mem ?s3 = poller_mem s" and am3: "app_mem ?s3 = tf (app_mem s)"
      using t(4,5) by (simp_all add: set_active_pollers_def)
    from quiet obtain u where u:
      "poller_fn cb (p_fn (poller_mem ?s3 p)) (p_arg (poller_mem ?s3 p)) ?s3 = Inr u"
      "g_reactors u = g_reactors ?s3" "g_reactor_state u = g_reactor_state ?s3"
      "poller_mem u = poller_mem ?s3"
      "app_mem u = pf (p_fn (poller_mem ?s3 p)) (p_arg (poller_mem ?s3 p)) (app_mem ?s3)"
      unfolding quiet_callbacks_def by blast
    let ?s4 = "u\<lparr>trace := trace ?s3\<rparr>"
    have ring4: "active_pollers (g_reactors ?s4 reactor) = Some ?r1"
      using u(2) by (simp add: set_active_pollers_def)
    have enq: "rte_ring_enqueue ?r1 p = (0, r\<lparr>ring_entries := ps @ [p]\<rparr>)"
      using cap Cons by (simp add: rte_ring_enqueue_def)
    let ?s5 = "set_active_pollers reactor (r\<lparr>ring_entries := ps @ [p]\<rparr>) ?s4"
    have "reactor_poll cb reactor ?s2 = Inr ?s5"
      using ring2 Cons u(1) ring4 enq
      by (simp add: reactor_poll_def rte_ring_dequeue_Cons Let_def run_callback_def
          set_active_pollers_def)
    moreover have "active_pollers (g_reactors ?s5 reactor) =
        Some (r\<lparr>ring_entries := rotate1 (ring_entries r)\<rparr>)"
      using Cons by (simp add: set_active_pollers_def)
    moreover have "events (g_reactors ?s5 lcore) = events (g_reactors s lcore)"
      using u(2) t(2) by (simp add: set_active_pollers_def)
    moreover have "g_reactor_state ?s5 = g_reactor_state s"
      using u(3) t(3) by (simp add: set_active_pollers_def)
    moreover have "poller_mem ?s5 = poller_mem s"
      using u(4) pm3 by (simp add: set_active_pollers_def)
    moreover have "app_mem ?s5 = poller_effect pf tf (poller_mem s) p (app_mem s)"
      using u(5) pm3 am3 by (simp add: set_active_pollers_def poller_effect_def)
    moreover have "trace ?s5 = trace s @ [TimerManage, PollerRun p]"
      by (simp add: set_active_pollers_def)
    ultimately show ?thesis
      using it Cons by simp
  qed
qed

lemma round_robin_aux:
  assumes quiet: "quiet_callbacks cb pf tf"
    and ring: "active_pollers (g_reactors s reactor) = Some r"
    and cap: "length (ring_entries r) \<le> ring_capacity r"
    and idle: "spdk_event_queue_count lcore s = 0"
  shows "\<exists>s'. reactor_iterations n cb lcore reactor s = Inr s' \<and>
           poller_runs (trace s') = poller_runs (trace s) @
             (if ring_entries r = [] then []
              else map (\<lambda>k. ring_entries r ! (k mod length (ring_entries r))) [0..<n]) \<and>
           active_pollers (g_reactors s' reactor) =
             Some (r\<lparr>ring_entries := rotate n (ring_entries r)\<rparr>) \<and>
           events (g_reactors s' lcore) = events (g_reactors s lcore) \<and>
           g_reactor_state s' = g_reactor_state s \<and>
           poller_mem s' = poller_mem s \<and>
           app_mem s' =
             (if ring_entries r = [] then (tf ^^ n) (app_mem s)
              else fold (poller_effect pf tf (poller_mem s))
                     (map (\<lambda>k. ring_entries r ! (k mod length (ring_entries r))) [0..<n])
                     (app_mem s)) \<and>
           (g_reactor_state s = RUNNING \<longrightarrow>
              (\<forall>k. u_spdk_reactor_run (n + k) cb lcore reactor s =
                    u_spdk_reactor_run k cb lcore reactor s'))"
proof (induction n)
  case 0
  show ?case
    using ring by simp
next
  case (Suc n)
  let ?ps = "ring_entries r"
  let ?rn = "r\<lparr>ring_entries := rotate n ?ps\<rparr>"
  from Suc.IH obtain sn where sn: "reactor_iterations n cb lcore reactor s = Inr sn"
    "poller_runs (trace sn) = poller_runs (trace s) @
       (if ?ps = [] then [] else map (\<lambda>k. ?ps ! (k mod length ?ps)) [0..<n])"
    "active_pollers (g_reactors sn reactor) = Some ?rn"
    "events (g_reactors sn lcore) = events (g_reactors s lcore)"
    "g_reactor_state sn = g_reactor_state s"
    "g_reactor_state s = RUNNING \<longrightarrow>
       (\<forall>k. u_spdk_reactor_run (n + k) cb lcore reactor s =
             u_spdk_reactor_run k cb lcore reactor sn)"
    "poller_mem sn = poller_mem s"
    "app_mem sn =
       (if ?ps = [] then (tf ^^ n) (app_mem s)
        else fold (poller_effect pf tf (poller_mem s))
               (map (\<lambda>k. ?ps ! (k mod length ?ps)) [0..<n]) (app_mem s))"
    by blast
  have capn: "length (ring_entries ?rn) \<le> ring_capacity ?rn"
    using cap by simp
  have idlen: "spdk_event_queue_count lcore sn = 0"
    using idle sn(4) by (simp add: spdk_event_queue_count_def)
  from reactor_iteration_quiet [OF quiet sn(3) capn idlen]
  obtain s' where s': "reactor_iteration cb lcore reactor sn = Inr s'"
    "active_pollers (g_reactors s' reactor) =
       Some (?rn\<lparr>ring_entries := rotate1 (ring_entries ?rn)\<rparr>)"
    "events (g_reactors s' lcore) = events (g_reactors sn lcore)"
    "g_reactor_state s' = g_reactor_state sn"
    "trace s' = trace sn @ TimerManage #
       (case ring_entries ?rn of [] \<Rightarrow> [] | p # ps \<Rightarrow> [PollerRun p])"
    "poller_mem s' = poller_mem sn"
    "app_mem s' =
       (case ring_entries ?rn of
          [] \<Rightarrow> tf (app_mem sn)
        | p # ps \<Rightarrow> poller_effect pf tf (poller_mem sn) p (app_mem sn))"
    by blast
  have it: "reactor_iterations (Suc n) cb lcore reactor s = Inr s'"
    using sn(1) s'(1) by (simp only: reactor_iterations_snoc sum.case)
  have hd: "\<exists>ps. rotate n ?ps = ?ps ! (n mod length ?ps) # ps" if "?ps \<noteq> []"
  proof -
    from that have "rotate n ?ps \<noteq> []"
      by simp
    then obtain p ps where pp: "rotate n ?ps = p # ps"
      by (cases "rotate n ?ps") auto
    have "p = hd (rotate n ?ps)"
      using pp by simp
    also have "\<dots> = ?ps ! (n mod length ?ps)"
      using that by (rule hd_rotate_conv_nth)
    finally show ?thesis
      using pp by simp
  qed
  have runs: "poller_runs (trace s') = poller_runs (trace s) @
      (if ?ps = [] then [] else map (\<lambda>k. ?ps ! (k mod length ?ps)) [0..<Suc n])"
  proof (cases "?ps = []")
    case True
    then show ?thesis
      using s'(5) sn(2) by (simp add: poller_runs_append)
  next
    case False
    from hd [OF False] obtain ps where "rotate n ?ps = ?ps ! (n mod length ?ps) # ps"
      by blast
    then show ?thesis
      using False s'(5) sn(2) by (simp add: poller_runs_append)
  qed
  have mem: "app_mem s' =
      (if ?ps = [] then (tf ^^ Suc n) (app_mem s)
       else fold (poller_effect pf tf (poller_mem s))
              (map (\<lambda>k. ?ps ! (k mod length ?ps)) [0..<Suc n]) (app_mem s))"
  proof (cases "?ps = []")
    case True
    then show ?thesis
      using s'(7) sn(8) by simp
  next
    case False
    from hd [OF False] obtain ps where "rotate n ?ps = ?ps ! (n mod length ?ps) # ps"
      by blast
    then show ?thesis
      using False s'(7) sn(7,8) by simp
  qed
  have loop: "u_spdk_reactor_run (Suc n + k) cb lcore reactor s =
      u_spdk_reactor_run k cb lcore reactor s'" if run: "g_reactor_state s = RUNNING" for k
  proof -
    have "u_spdk_reactor_run (Suc n + k) cb lcore reactor s =
        u_spdk_reactor_run (n + Suc k) cb lcore reactor s"
      by simp
    also have "\<dots> = u_spdk_reactor_run (Suc k) cb lcore reactor sn"
      using sn(6) run by blast
    also have "\<dots> = u_spdk_reactor_run k cb lcore reactor s'"
      using s'(1,4) sn(5) run by simp
    finally show ?thesis .
  qed
  have pm: "poller_mem s' = poller_mem s"
    using s'(6) sn(7) by simp
  show ?case
  proof (intro exI conjI)
    show "reactor_iterations (Suc n) cb lcore reactor s = Inr s'"
      by (rule it)
    show "poller_runs (trace s') = poller_runs (trace s) @
        (if ?ps = [] then [] else map (\<lambda>k. ?ps ! (k mod length ?ps)) [0..<Suc n])"
      by (rule runs)
    show "active_pollers (g_reactors s' reactor) =
        Some (r\<lparr>ring_entries := rotate (Suc n) ?ps\<rparr>)"
      using s'(2) by (simp add: rotate1_rotate_swap)
    show "events (g_reactors s' lcore) = events (g_reactors s lcore)"
      using s'(3) sn(4) by simp
    show "g_reactor_state s' = g_reactor_state s"
      using s'(4) sn(5) by simp
    show "poller_mem s' = poller_mem s"
      by (rule pm)
    show "app_mem s' =
        (if ?ps = [] then (tf ^^ Suc n) (app_mem s)
         else fold (poller_effect pf tf (poller_mem s))
                (map (\<lambda>k. ?ps ! (k mod length ?ps)) [0..<Suc n]) (app_mem s))"
      by (rule mem)
    show "g_reactor_state s = RUNNING \<longrightarrow>
        (\<forall>k. u_spdk_reactor_run (Suc n + k) cb lcore reactor s =
              u_spdk_reactor_run k cb lcore reactor s')"
      using loop by blast
  qed
qed

text \<open>
  C5. The poller step is a rotation from head to tail: an iteration takes the poller
  at the head of the ring, invokes its callback with its argument and puts it back at
  the tail. With callbacks that mutate no ring, no event pending and the reactors
  running, the first \<open>n\<close> iterations of the loop all return and the loop, which has not
  returned, goes on from the state they reach. The pollers invoked are the first \<open>n\<close> of
  the ring's contents repeated: this is what the history holds, and the memory of the
  application is what the callbacks of these pollers, called in this order after one
  timer tick each, make of it. The ring is the initial one rotated \<open>n\<close> times. For the
  ring (A, B, C) the invocations are the prefix of (A B C) repeated; \<open>n = 1\<close> is the single
  iteration.
\<close>

theorem round_robin:
  assumes "quiet_callbacks cb pf tf"
    and "active_pollers (g_reactors s reactor) = Some r"
    and "length (ring_entries r) \<le> ring_capacity r"
    and "spdk_event_queue_count lcore s = 0"
    and "g_reactor_state s = RUNNING"
  shows "\<exists>s'. reactor_iterations n cb lcore reactor s = Inr s' \<and>
           u_spdk_reactor_run n cb lcore reactor s = None \<and>
           (\<forall>k. u_spdk_reactor_run (n + k) cb lcore reactor s =
                 u_spdk_reactor_run k cb lcore reactor s') \<and>
           poller_runs (trace s') =
             poller_runs (trace s) @ take n (concat (replicate n (ring_entries r))) \<and>
           app_mem s' =
             (if ring_entries r = [] then (tf ^^ n) (app_mem s)
              else fold (poller_effect pf tf (poller_mem s))
                     (take n (concat (replicate n (ring_entries r)))) (app_mem s)) \<and>
           active_pollers (g_reactors s' reactor) =
             Some (r\<lparr>ring_entries := rotate n (ring_entries r)\<rparr>)"
proof -
  from round_robin_aux [OF assms(1-4), of n]
  obtain s' where s': "reactor_iterations n cb lcore reactor s = Inr s'"
    "poller_runs (trace s') = poller_runs (trace s) @
       (if ring_entries r = [] then []
        else map (\<lambda>k. ring_entries r ! (k mod length (ring_entries r))) [0..<n])"
    "active_pollers (g_reactors s' reactor) =
       Some (r\<lparr>ring_entries := rotate n (ring_entries r)\<rparr>)"
    "app_mem s' =
       (if ring_entries r = [] then (tf ^^ n) (app_mem s)
        else fold (poller_effect pf tf (poller_mem s))
               (map (\<lambda>k. ring_entries r ! (k mod length (ring_entries r))) [0..<n])
               (app_mem s))"
    "\<forall>k. u_spdk_reactor_run (n + k) cb lcore reactor s =
         u_spdk_reactor_run k cb lcore reactor s'"
    using assms(5) by blast
  have tk: "(if ring_entries r = [] then []
         else map (\<lambda>k. ring_entries r ! (k mod length (ring_entries r))) [0..<n]) =
        take n (concat (replicate n (ring_entries r)))"
    by (simp add: take_concat_replicate)
  have tk2: "map (\<lambda>k. ring_entries r ! (k mod length (ring_entries r))) [0..<n] =
        take n (concat (replicate n (ring_entries r)))" if "ring_entries r \<noteq> []"
    using that by (simp add: take_concat_replicate)
  have "u_spdk_reactor_run (n + 0) cb lcore reactor s = u_spdk_reactor_run 0 cb lcore reactor s'"
    using s'(5) by blast
  then have none: "u_spdk_reactor_run n cb lcore reactor s = None"
    by simp
  have mem: "app_mem s' =
       (if ring_entries r = [] then (tf ^^ n) (app_mem s)
        else fold (poller_effect pf tf (poller_mem s))
               (take n (concat (replicate n (ring_entries r)))) (app_mem s))"
    using s'(4) tk2 by auto
  have runs: "poller_runs (trace s') =
       poller_runs (trace s) @ take n (concat (replicate n (ring_entries r)))"
    using s'(2) tk by simp
  show ?thesis
    using s'(1,3,5) none mem runs by blast
qed

theorem round_robin_witness:
  "quiet_callbacks logging_callbacks (\<lambda>f. log_digit) (\<lambda>m. m) \<and>
   spdk_event_queue_count 0 abc_state = 0 \<and>
   g_reactor_state abc_state = RUNNING \<and>
   map_option ring_entries (active_pollers (g_reactors abc_state 0)) = Some [1, 2, 3] \<and>
   app_mem abc_state 0 = 0 \<and>
   (case reactor_iterations 7 logging_callbacks 0 0 abc_state of
      Inl e \<Rightarrow> False
    | Inr s' \<Rightarrow>
        poller_runs (trace s') = [1, 2, 3, 1, 2, 3, 1] \<and>
        app_mem s' 0 = 1231231 \<and>
        map_option ring_entries (active_pollers (g_reactors s' 0)) = Some [2, 3, 1]) \<and>
   u_spdk_reactor_run 7 logging_callbacks 0 0 abc_state = None"
proof -
  let ?r = "\<lparr>ring_entries = [1, 2, 3], ring_capacity = 4095\<rparr>"
  have q: "quiet_callbacks logging_callbacks (\<lambda>f. log_digit) (\<lambda>m. m)"
    by (simp add: quiet_callbacks_def logging_callbacks_def idle_callbacks_def)
  have h: "active_pollers (g_reactors abc_state 0) = Some ?r"
    "length (ring_entries ?r) \<le> ring_capacity ?r"
    "spdk_event_queue_count 0 abc_state = 0"
    "g_reactor_state abc_state = RUNNING"
    by (simp_all add: abc_state_def zero_state_def reactor_with_def spdk_event_queue_count_def
        rte_ring_count_def)
  have t: "trace abc_state = []" "app_mem abc_state = (\<lambda>a. 0)"
    "poller_mem abc_state = (\<lambda>a. \<lparr>p_lcore = 0, p_fn = 1, p_arg = a\<rparr>)"
    by (simp_all add: abc_state_def zero_state_def)
  from round_robin [OF q h, of 7]
  obtain s' where s': "reactor_iterations 7 logging_callbacks 0 0 abc_state = Inr s'"
    "u_spdk_reactor_run 7 logging_callbacks 0 0 abc_state = None"
    "poller_runs (trace s') =
       poller_runs (trace abc_state) @ take 7 (concat (replicate 7 (ring_entries ?r)))"
    "app_mem s' =
       (if ring_entries ?r = [] then ((\<lambda>m. m) ^^ 7) (app_mem abc_state)
        else fold (poller_effect (\<lambda>f. log_digit) (\<lambda>m. m) (poller_mem abc_state))
               (take 7 (concat (replicate 7 (ring_entries ?r)))) (app_mem abc_state))"
    "active_pollers (g_reactors s' 0) = Some (?r\<lparr>ring_entries := rotate 7 (ring_entries ?r)\<rparr>)"
    by (elim exE conjE) (rule that)
  have e: "take 7 (concat (replicate 7 [1, 2, 3 :: nat])) = [1, 2, 3, 1, 2, 3, 1]"
    "rotate 7 [1, 2, 3 :: nat] = [2, 3, 1]"
    by (simp_all add: eval_nat_numeral)
  have "app_mem s' =
      fold (poller_effect (\<lambda>f. log_digit) (\<lambda>m. m) (poller_mem abc_state))
        (take 7 (concat (replicate 7 [1, 2, 3 :: nat]))) (app_mem abc_state)"
    using s'(4) by simp
  also have "take 7 (concat (replicate 7 [1, 2, 3 :: nat])) = [1, 2, 3, 1, 2, 3, 1]"
    by (rule e(1))
  finally have m: "app_mem s' 0 = 1231231"
    by (simp add: t poller_effect_def log_digit_def)
  have "poller_runs (trace s') = [1, 2, 3, 1, 2, 3, 1]"
    "map_option ring_entries (active_pollers (g_reactors s' 0)) = Some [2, 3, 1]"
    using s'(3,5) e by (simp_all add: t)
  then show ?thesis
    using q h t(2) s'(1,2) m by simp
qed

section \<open>The loop\<close>


















section \<open>Migration\<close>

text \<open>What each operation of the protocol does when the resources it needs are there.\<close>

lemma spdk_event_allocate_ok:
  assumes "g_spdk_event_mempool s = Some (x # pool)" and "x \<noteq> NULL"
  shows "spdk_event_allocate lcore fn a1 a2 nx s =
     Inr (x, s\<lparr>g_spdk_event_mempool := Some pool,
               event_mem := (event_mem s)(x :=
                 \<lparr>ev_lcore = lcore, ev_fn = fn, ev_arg1 = a1, ev_arg2 = a2, ev_next = nx\<rparr>)\<rparr>)"
  using assms by (simp add: spdk_event_allocate_def rte_mempool_get_def)

lemma spdk_event_call_ok:
  assumes "ev_lcore (event_mem s e) = l"
    and "events (g_reactors s l) = Some q"
    and "length (ring_entries q) < ring_capacity q"
  shows "spdk_event_call e s = Inr (set_events l (q\<lparr>ring_entries := ring_entries q @ [e]\<rparr>) s)"
  using assms by (simp add: spdk_event_call_def Let_def rte_ring_enqueue_room)

lemma run_single_ok:
  assumes "events (g_reactors s l) = Some q"
    and "ring_entries q = e # es"
    and "e \<noteq> NULL"
    and "event_fn_call cb l e
           ((set_events l (q\<lparr>ring_entries := es\<rparr>) s)\<lparr>trace := trace s @ [EventRun e]\<rparr>) = Inr u"
    and "g_spdk_event_mempool u = Some pool"
  shows "spdk_event_queue_run_single cb l s =
     Inr (u\<lparr>g_spdk_event_mempool := Some (e # pool),
            trace := trace s @ [EventRun e, EventFree e]\<rparr>)"
  using assms
  by (simp add: spdk_event_queue_run_single_def rte_ring_dequeue_Cons Let_def set_events_def
      run_callback_def spdk_event_free_def rte_mempool_put_def)

lemma mask_bit_below: "(w :: 64 word) AND push_bit M 1 \<noteq> 0 \<Longrightarrow> M < 64"
proof -
  assume "w AND push_bit M 1 \<noteq> 0"
  then obtain j where "bit (w AND push_bit M 1) j"
    by (auto simp: bit_eq_iff)
  then show "M < 64"
    by (auto simp: bit_simps)
qed

lemma migrate_post:
  assumes P: "P \<noteq> NULL"
    and lc: "p_lcore (poller_mem s P) = A"
    and mask: "g_reactor_mask s AND push_bit M 1 \<noteq> 0"
    and qa: "events (g_reactors s A) = Some qa" "length (ring_entries qa) < ring_capacity qa"
    and pool: "g_spdk_event_mempool s = Some (x # y # pool)" "x \<noteq> NULL" "y \<noteq> NULL"
  shows "spdk_poller_migrate P (int M) E s =
     Inr (set_events A (qa\<lparr>ring_entries := ring_entries qa @ [y]\<rparr>)
       (s\<lparr>g_spdk_event_mempool := Some pool,
          event_mem := (event_mem s)
            (x := \<lparr>ev_lcore = M, ev_fn = FN_poller_migrate, ev_arg1 = P, ev_arg2 = NULL,
                   ev_next = E\<rparr>,
             y := \<lparr>ev_lcore = A, ev_fn = FN_remove_poller, ev_arg1 = A, ev_arg2 = P,
                   ev_next = x\<rparr>)\<rparr>))"
proof -
  let ?s1 = "s\<lparr>g_spdk_event_mempool := Some (y # pool),
               event_mem := (event_mem s)(x :=
                 \<lparr>ev_lcore = M, ev_fn = FN_poller_migrate, ev_arg1 = P, ev_arg2 = NULL,
                  ev_next = E\<rparr>)\<rparr>"
  have a1: "spdk_event_allocate M FN_poller_migrate P NULL E s = Inr (x, ?s1)"
    using pool(1,2) by (rule spdk_event_allocate_ok)
  let ?s2 = "?s1\<lparr>g_spdk_event_mempool := Some pool,
               event_mem := (event_mem ?s1)(y :=
                 \<lparr>ev_lcore = A, ev_fn = FN_remove_poller, ev_arg1 = A, ev_arg2 = P,
                  ev_next = x\<rparr>)\<rparr>"
  have a2: "spdk_event_allocate A FN_remove_poller A P x ?s1 = Inr (y, ?s2)"
    using pool(3) by (intro spdk_event_allocate_ok) simp_all
  have c: "spdk_event_call y ?s2 =
      Inr (set_events A (qa\<lparr>ring_entries := ring_entries qa @ [y]\<rparr>) ?s2)"
    using qa by (intro spdk_event_call_ok) simp_all
  have "spdk_poller_unregister P x ?s1 =
      Inr (set_events A (qa\<lparr>ring_entries := ring_entries qa @ [y]\<rparr>) ?s2)"
    using lc a2 c by (simp add: spdk_poller_unregister_def Let_def)
  moreover have "M < 64"
    using mask by (rule mask_bit_below)
  then have "shl_1ULL (int M) = push_bit M 1" "to_uint32 (int M) = M"
    by (simp_all add: shl_1ULL_below to_uint32_def)
  ultimately show ?thesis
    using P mask a1 by (simp add: spdk_poller_migrate_def spdk_app_get_core_mask_def)
qed

lemma count_list_one_split:
  assumes "count_list xs x = 1"
  shows "\<exists>us vs. xs = us @ x # vs \<and> x \<notin> set us \<and> x \<notin> set vs"
proof -
  have "x \<in> set xs"
    using assms by (metis count_list_0_iff zero_neq_one)
  then obtain us vs where s: "xs = us @ x # vs" "x \<notin> set us"
    by (auto dest: split_list_first)
  have "count_list us x = 0"
    using s(2) by (simp add: count_list_0_iff)
  then have "count_list vs x = 0"
    using assms s(1) by simp
  then have "x \<notin> set vs"
    by (simp add: count_list_0_iff)
  then show ?thesis
    using s by blast
qed

lemma remove_poller_ok:
  assumes ev: "ev_arg1 (event_mem s e) = A" "ev_arg2 (event_mem s e) = P"
      "ev_next (event_mem s e) = n" "n \<noteq> NULL"
    and ring: "active_pollers (g_reactors s A) = Some r" "ring_entries r = us @ P # vs"
      "P \<notin> set us" "P \<notin> set vs" "length (ring_entries r) \<le> ring_capacity r"
    and q: "ev_lcore (event_mem s n) = l" "events (g_reactors s l) = Some q"
      "length (ring_entries q) < ring_capacity q"
  shows "\<exists>r'. u_spdk_event_remove_poller e s =
           Inr (set_events l (q\<lparr>ring_entries := ring_entries q @ [n]\<rparr>)
                  (set_active_pollers A r' s)) \<and>
         P \<notin> set (ring_entries r')"
proof -
  from remove_poller_loop_present [OF ring(2-4) _ ring(5), of 0 NULL]
  obtain i' tmp' where lp: "remove_poller_loop P 0 NULL r =
      Inr (i', tmp', r\<lparr>ring_entries := rotate (length vs - 0 - 1) (vs @ us)\<rparr>)"
    by auto
  let ?r' = "r\<lparr>ring_entries := rotate (length vs - 0 - 1) (vs @ us)\<rparr>"
  let ?s1 = "set_active_pollers A ?r' s"
  have c: "spdk_event_call n ?s1 =
      Inr (set_events l (q\<lparr>ring_entries := ring_entries q @ [n]\<rparr>) ?s1)"
    using q by (intro spdk_event_call_ok) (auto simp: set_active_pollers_def)
  have "u_spdk_event_remove_poller e s =
      Inr (set_events l (q\<lparr>ring_entries := ring_entries q @ [n]\<rparr>) ?s1)"
    using ev ring(1) lp c by (simp add: u_spdk_event_remove_poller_def Let_def)
  moreover have "P \<notin> set (ring_entries ?r')"
    using ring(3,4) by simp
  ultimately show ?thesis
    by blast
qed

lemma poller_migrate_ok:
  assumes ev: "ev_arg1 (event_mem s e) = P" "ev_next (event_mem s e) = n"
    and pool: "g_spdk_event_mempool s = Some (z # pool)" "z \<noteq> NULL"
    and q: "events (g_reactors s lcore) = Some q" "length (ring_entries q) < ring_capacity q"
  shows "u_spdk_poller_migrate lcore e s =
     Inr (set_events lcore (q\<lparr>ring_entries := ring_entries q @ [z]\<rparr>)
       (s\<lparr>g_spdk_event_mempool := Some pool,
          event_mem := (event_mem s)(z :=
            \<lparr>ev_lcore = lcore, ev_fn = FN_add_poller, ev_arg1 = lcore, ev_arg2 = P,
             ev_next = n\<rparr>)\<rparr>))"
proof -
  let ?s1 = "s\<lparr>g_spdk_event_mempool := Some pool,
          event_mem := (event_mem s)(z :=
            \<lparr>ev_lcore = lcore, ev_fn = FN_add_poller, ev_arg1 = lcore, ev_arg2 = P,
             ev_next = n\<rparr>)\<rparr>"
  have a: "spdk_event_allocate lcore FN_add_poller lcore P n s = Inr (z, ?s1)"
    using pool by (rule spdk_event_allocate_ok)
  have c: "spdk_event_call z ?s1 =
      Inr (set_events lcore (q\<lparr>ring_entries := ring_entries q @ [z]\<rparr>) ?s1)"
    using q by (intro spdk_event_call_ok) simp_all
  show ?thesis
    using ev a c by (simp add: u_spdk_poller_migrate_def spdk_poller_register_def Let_def)
qed

lemma add_poller_ok:
  assumes ev: "ev_arg1 (event_mem s e) = R" "ev_arg2 (event_mem s e) = P"
      "ev_next (event_mem s e) = n" "n \<noteq> NULL"
    and ring: "active_pollers (g_reactors s R) = Some r"
      "length (ring_entries r) < ring_capacity r"
    and q: "ev_lcore (event_mem s n) = l" "events (g_reactors s l) = Some q"
      "length (ring_entries q) < ring_capacity q"
  shows "u_spdk_event_add_poller e s =
     Inr (set_events l (q\<lparr>ring_entries := ring_entries q @ [n]\<rparr>)
       (set_active_pollers R (r\<lparr>ring_entries := ring_entries r @ [P]\<rparr>)
          (s\<lparr>poller_mem := (poller_mem s)(P :=
               (poller_mem s P)\<lparr>p_lcore := r_lcore (g_reactors s R)\<rparr>)\<rparr>)))"
proof -
  let ?s1 = "s\<lparr>poller_mem := (poller_mem s)(P :=
               (poller_mem s P)\<lparr>p_lcore := r_lcore (g_reactors s R)\<rparr>)\<rparr>"
  let ?s2 = "set_active_pollers R (r\<lparr>ring_entries := ring_entries r @ [P]\<rparr>) ?s1"
  have c: "spdk_event_call n ?s2 =
      Inr (set_events l (q\<lparr>ring_entries := ring_entries q @ [n]\<rparr>) ?s2)"
    using q by (intro spdk_event_call_ok) (auto simp: set_active_pollers_def)
  show ?thesis
    using ev ring c
    by (simp add: u_spdk_event_add_poller_def Let_def rte_ring_enqueue_room)
qed

lemmas migrate_eval = spdk_poller_migrate_def spdk_app_get_core_mask_def spdk_event_allocate_def
  shl_1ULL_def to_uint32_def
  rte_mempool_get_def spdk_poller_unregister_def spdk_event_call_def rte_ring_enqueue_def
  set_events_def set_active_pollers_def spdk_event_queue_run_single_def rte_ring_dequeue_def
  run_callback_def event_fn_call_def u_spdk_event_remove_poller_def
  u_spdk_event_add_poller_def u_spdk_poller_migrate_def spdk_poller_register_def
  remove_poller_loop.simps rte_ring_count_def spdk_event_free_def rte_mempool_put_def
  migrate_full_state_def migrate_state_def zero_state_def reactor_with_def Let_def
  queue_entries_def

text \<open>
  C4, as stated, fails on the code. The claim is for every target core in the mask.
  First, the target can be the core the poller is on: P (address 7) is registered on
  core 0 and is migrated to core 0 with the completion E (address 30). After core 0 has
  run the three events of the protocol E is posted, and the ring of core 0, the core the
  poller came from, does contain P. Second, the ring of the target can be full (see C9):
  migrated to core 1 whose ring is full, P is in no ring when E is posted.
\<close>

theorem migrate_to_same_core_or_full_ring:
  "(case spdk_poller_migrate 7 0 30 migrate_state of
      Inl e \<Rightarrow> False
    | Inr s1 \<Rightarrow>
       (case spdk_event_queue_run_single idle_callbacks 0 s1 of
          Inl e \<Rightarrow> False
        | Inr s2 \<Rightarrow>
           (case spdk_event_queue_run_single idle_callbacks 0 s2 of
              Inl e \<Rightarrow> False
            | Inr s3 \<Rightarrow>
               (case spdk_event_queue_run_single idle_callbacks 0 s3 of
                  Inl e \<Rightarrow> False
                | Inr s4 \<Rightarrow>
                    queue_entries 1 s4 = [30] \<and>
                    p_lcore (poller_mem s4 7) = 0 \<and>
                    map_option ring_entries (active_pollers (g_reactors s4 0)) = Some [7])))) \<and>
   (case spdk_poller_migrate 7 1 30 migrate_full_state of
      Inl e \<Rightarrow> False
    | Inr s1 \<Rightarrow>
       (case spdk_event_queue_run_single idle_callbacks 0 s1 of
          Inl e \<Rightarrow> False
        | Inr s2 \<Rightarrow>
           (case spdk_event_queue_run_single idle_callbacks 1 s2 of
              Inl e \<Rightarrow> False
            | Inr s3 \<Rightarrow>
               (case spdk_event_queue_run_single idle_callbacks 1 s3 of
                  Inl e \<Rightarrow> False
                | Inr s4 \<Rightarrow>
                    queue_entries 1 s4 = [30] \<and>
                    p_lcore (poller_mem s4 7) = 1 \<and>
                    map_option ring_entries (active_pollers (g_reactors s4 0)) = Some [] \<and>
                    map_option ring_entries (active_pollers (g_reactors s4 1)) = Some [5]))))"
  by (simp add: migrate_eval)

text \<open>
  C4, amended. Let P be registered on core A, M a core of the mask other than A whose
  ring has room, no other event pending on A and M, and the event records and queue
  room that the protocol needs at hand. Then \<^verbatim>\<open>spdk_poller_migrate\<close> posts the unregister
  event and changes no ring; when core A has run that event P is in no ring; when core M
  has run the migrate event P is still in no ring; when core M has run the register
  event P is registered on M (its \<^verbatim>\<open>lcore\<close> field is M, the ring of M holds it once, no
  other ring holds it, so the ring of A does not), and the completion E is posted, at the
  tail of the queue of its core. No callback of the application runs in these steps.
\<close>

theorem migrate_moves_poller:
  assumes reg: "registered_on s P A"
    and P: "P \<noteq> NULL"
    and ne: "M \<noteq> A"
    and mask: "g_reactor_mask s AND push_bit M 1 \<noteq> 0"
    and rm: "active_pollers (g_reactors s M) = Some rm"
      "length (ring_entries rm) < ring_capacity rm" "r_lcore (g_reactors s M) = M"
    and qa: "events (g_reactors s A) = Some qa" "ring_entries qa = []" "0 < ring_capacity qa"
    and qm: "events (g_reactors s M) = Some qm" "ring_entries qm = []" "0 < ring_capacity qm"
    and pool: "g_spdk_event_mempool s = Some (x # y # pool)" "x \<noteq> NULL" "y \<noteq> NULL" "x \<noteq> y"
    and E: "E \<noteq> NULL" "E \<noteq> x" "E \<noteq> y"
    and qe: "events (g_reactors s (ev_lcore (event_mem s E))) = Some qe"
      "length (ring_entries qe) < ring_capacity qe"
  shows "\<exists>s1 s2 s3 s4.
      spdk_poller_migrate P (int M) E s = Inr s1 \<and> registered_on s1 P A \<and>
      spdk_event_queue_run_single cb A s1 = Inr s2 \<and> in_no_ring s2 P \<and>
      spdk_event_queue_run_single cb M s2 = Inr s3 \<and> in_no_ring s3 P \<and>
      spdk_event_queue_run_single cb M s3 = Inr s4 \<and> registered_on s4 P M \<and>
      queue_entries (ev_lcore (event_mem s E)) s4 = ring_entries qe @ [E]"
proof -
  let ?X = "ev_lcore (event_mem s E)"
  from reg have lc: "p_lcore (poller_mem s P) = A"
    and others: "\<And>c r. c \<noteq> A \<Longrightarrow> active_pollers (g_reactors s c) = Some r \<Longrightarrow>
                  P \<notin> set (ring_entries r)"
    by (auto simp: registered_on_def)
  from reg obtain ra where ra: "active_pollers (g_reactors s A) = Some ra"
    "count_list (ring_entries ra) P = 1" "length (ring_entries ra) \<le> ring_capacity ra"
    by (auto simp: registered_on_def)
  from count_list_one_split [OF ra(2)] obtain us vs where
    uv: "ring_entries ra = us @ P # vs" "P \<notin> set us" "P \<notin> set vs"
    by blast
  have Prm: "P \<notin> set (ring_entries rm)"
    using others [OF ne rm(1)] .
  \<comment> \<open>the call of \<^verbatim>\<open>spdk_poller_migrate\<close>\<close>
  have qa_room: "length (ring_entries qa) < ring_capacity qa"
    using qa by simp
  define s1 where "s1 =
     set_events A (qa\<lparr>ring_entries := ring_entries qa @ [y]\<rparr>)
       (s\<lparr>g_spdk_event_mempool := Some pool,
          event_mem := (event_mem s)
            (x := \<lparr>ev_lcore = M, ev_fn = FN_poller_migrate, ev_arg1 = P, ev_arg2 = NULL,
                   ev_next = E\<rparr>,
             y := \<lparr>ev_lcore = A, ev_fn = FN_remove_poller, ev_arg1 = A, ev_arg2 = P,
                   ev_next = x\<rparr>)\<rparr>)"
  have m1: "spdk_poller_migrate P (int M) E s = Inr s1"
    unfolding s1_def using P lc mask qa(1) qa_room pool(1-3) by (rule migrate_post)
  have s1_rings: "active_pollers (g_reactors s1 c) = active_pollers (g_reactors s c)" for c
    by (simp add: s1_def set_events_def)
  have s1_pm: "poller_mem s1 = poller_mem s"
    by (simp add: s1_def set_events_def)
  have reg1: "registered_on s1 P A"
    using reg by (simp add: registered_on_def s1_rings s1_pm)
  \<comment> \<open>core A runs the remove event\<close>
  let ?qa1 = "qa\<lparr>ring_entries := ring_entries qa @ [y]\<rparr>"
  define t1 where "t1 =
     (set_events A (?qa1\<lparr>ring_entries := []\<rparr>) s1)\<lparr>trace := trace s1 @ [EventRun y]\<rparr>"
  have t1_ev: "event_mem t1 y = \<lparr>ev_lcore = A, ev_fn = FN_remove_poller, ev_arg1 = A,
      ev_arg2 = P, ev_next = x\<rparr>"
    "event_mem t1 x = \<lparr>ev_lcore = M, ev_fn = FN_poller_migrate, ev_arg1 = P, ev_arg2 = NULL,
      ev_next = E\<rparr>"
    using pool(4) by (simp_all add: t1_def s1_def set_events_def)
  have t1_ring: "active_pollers (g_reactors t1 A) = Some ra"
    using ra(1) by (simp add: t1_def s1_def set_events_def)
  have t1_qm: "events (g_reactors t1 M) = Some qm"
    using qm(1) ne by (simp add: t1_def s1_def set_events_def)
  have qm_room: "length (ring_entries qm) < ring_capacity qm"
    using qm by simp
  from remove_poller_ok [of t1 y A P x ra us vs M qm] t1_ev t1_ring uv ra(3) t1_qm qm_room pool(2)
  obtain r' where r': "u_spdk_event_remove_poller y t1 =
      Inr (set_events M (qm\<lparr>ring_entries := ring_entries qm @ [x]\<rparr>)
             (set_active_pollers A r' t1))"
    "P \<notin> set (ring_entries r')"
    by auto
  define u2 where "u2 = set_events M (qm\<lparr>ring_entries := ring_entries qm @ [x]\<rparr>)
             (set_active_pollers A r' t1)"
  define s2 where "s2 = u2\<lparr>g_spdk_event_mempool := Some (y # pool),
            trace := trace s1 @ [EventRun y, EventFree y]\<rparr>"
  have c2: "event_fn_call cb A y t1 = Inr u2"
    using r'(1) t1_ev(1) by (simp add: event_fn_call_def u2_def)
  have m2: "spdk_event_queue_run_single cb A s1 = Inr s2"
    unfolding s2_def
  proof (rule run_single_ok)
    show "events (g_reactors s1 A) = Some ?qa1"
      by (simp add: s1_def set_events_def)
    show "ring_entries ?qa1 = y # []"
      using qa(2) by simp
    show "y \<noteq> NULL"
      by (rule pool(3))
    show "event_fn_call cb A y
        ((set_events A (?qa1\<lparr>ring_entries := []\<rparr>) s1)\<lparr>trace := trace s1 @ [EventRun y]\<rparr>) =
        Inr u2"
      using c2 by (simp add: t1_def)
    show "g_spdk_event_mempool u2 = Some pool"
      by (simp add: u2_def t1_def s1_def set_events_def set_active_pollers_def)
  qed
  have s2_rings: "active_pollers (g_reactors s2 c) =
      (if c = A then Some r' else active_pollers (g_reactors s c))" for c
    by (simp add: s2_def u2_def t1_def s1_def set_events_def set_active_pollers_def)
  have nr2: "in_no_ring s2 P"
    using r'(2) others by (auto simp: in_no_ring_def s2_rings split: if_splits)
  \<comment> \<open>core M runs the migrate event\<close>
  let ?qm1 = "qm\<lparr>ring_entries := ring_entries qm @ [x]\<rparr>"
  let ?qm2 = "?qm1\<lparr>ring_entries := []\<rparr>"
  define t2 where "t2 = (set_events M ?qm2 s2)\<lparr>trace := trace s2 @ [EventRun x]\<rparr>"
  define u3 where "u3 =
     set_events M (?qm2\<lparr>ring_entries := ring_entries ?qm2 @ [y]\<rparr>)
       (t2\<lparr>g_spdk_event_mempool := Some pool,
           event_mem := (event_mem t2)(y :=
             \<lparr>ev_lcore = M, ev_fn = FN_add_poller, ev_arg1 = M, ev_arg2 = P, ev_next = E\<rparr>)\<rparr>)"
  define s3 where "s3 = u3\<lparr>g_spdk_event_mempool := Some (x # pool),
            trace := trace s2 @ [EventRun x, EventFree x]\<rparr>"
  have t2_ev: "event_mem t2 x = \<lparr>ev_lcore = M, ev_fn = FN_poller_migrate, ev_arg1 = P,
      ev_arg2 = NULL, ev_next = E\<rparr>"
    using pool(4)
    by (simp add: t2_def s2_def u2_def t1_def s1_def set_events_def set_active_pollers_def)
  have "u_spdk_poller_migrate M x t2 = Inr u3"
    unfolding u3_def
  proof (rule poller_migrate_ok)
    show "ev_arg1 (event_mem t2 x) = P" "ev_next (event_mem t2 x) = E"
      by (simp_all add: t2_ev)
    show "g_spdk_event_mempool t2 = Some (y # pool)"
      by (simp add: t2_def s2_def set_events_def)
    show "y \<noteq> NULL"
      by (rule pool(3))
    show "events (g_reactors t2 M) = Some ?qm2"
      by (simp add: t2_def set_events_def)
    show "length (ring_entries ?qm2) < ring_capacity ?qm2"
      using qm(3) by simp
  qed
  then have c3: "event_fn_call cb M x t2 = Inr u3"
    using t2_ev by (simp add: event_fn_call_def)
  have m3: "spdk_event_queue_run_single cb M s2 = Inr s3"
    unfolding s3_def
  proof (rule run_single_ok)
    show "events (g_reactors s2 M) = Some ?qm1"
      by (simp add: s2_def u2_def set_events_def)
    show "ring_entries ?qm1 = x # []"
      using qm(2) by simp
    show "x \<noteq> NULL"
      by (rule pool(2))
    show "event_fn_call cb M x
        ((set_events M (?qm1\<lparr>ring_entries := []\<rparr>) s2)\<lparr>trace := trace s2 @ [EventRun x]\<rparr>) =
        Inr u3"
      using c3 by (simp add: t2_def)
    show "g_spdk_event_mempool u3 = Some pool"
      by (simp add: u3_def set_events_def)
  qed
  have s3_rings: "active_pollers (g_reactors s3 c) = active_pollers (g_reactors s2 c)" for c
    by (simp add: s3_def u3_def t2_def set_events_def)
  have nr3: "in_no_ring s3 P"
    using nr2 by (simp add: in_no_ring_def s3_rings)
  \<comment> \<open>core M runs the add event\<close>
  let ?qm3 = "?qm2\<lparr>ring_entries := ring_entries ?qm2 @ [y]\<rparr>"
  define t3 where "t3 =
     (set_events M (?qm3\<lparr>ring_entries := []\<rparr>) s3)\<lparr>trace := trace s3 @ [EventRun y]\<rparr>"
  have t3_ev: "event_mem t3 y = \<lparr>ev_lcore = M, ev_fn = FN_add_poller, ev_arg1 = M,
      ev_arg2 = P, ev_next = E\<rparr>"
    "event_mem t3 E = event_mem s E"
    using E
    by (simp_all add: t3_def s3_def u3_def t2_def s2_def u2_def t1_def s1_def set_events_def
        set_active_pollers_def)
  have "active_pollers (g_reactors t3 M) = active_pollers (g_reactors s3 M)"
    by (simp add: t3_def set_events_def)
  then have t3_ring: "active_pollers (g_reactors t3 M) = Some rm"
    using rm(1) ne by (simp add: s3_rings s2_rings)
  have t3_lcore: "r_lcore (g_reactors t3 M) = M"
    using rm(3) ne
    by (simp add: t3_def s3_def u3_def t2_def s2_def u2_def t1_def s1_def set_events_def
        set_active_pollers_def)
  have t3_pm: "poller_mem t3 = poller_mem s"
    by (simp add: t3_def s3_def u3_def t2_def s2_def u2_def t1_def s1_def set_events_def
        set_active_pollers_def)
  have "\<exists>q'. events (g_reactors t3 ?X) = Some q' \<and> ring_entries q' = ring_entries qe \<and>
      ring_capacity q' = ring_capacity qe"
  proof (cases "?X = M")
    case True
    then show ?thesis
      using qe(1) qm(1,2) by (simp add: t3_def set_events_def)
  next
    case XM: False
    show ?thesis
    proof (cases "?X = A")
      case True
      then show ?thesis
        using qe(1) qa(1,2) ne XM
        by (simp add: t3_def s3_def u3_def t2_def s2_def u2_def t1_def s1_def set_events_def
            set_active_pollers_def)
    next
      case False
      then show ?thesis
        using qe(1) XM
        by (simp add: t3_def s3_def u3_def t2_def s2_def u2_def t1_def s1_def set_events_def
            set_active_pollers_def)
    qed
  qed
  then obtain q' where q': "events (g_reactors t3 ?X) = Some q'"
    "ring_entries q' = ring_entries qe" "ring_capacity q' = ring_capacity qe"
    by blast
  define u4 where "u4 =
     set_events ?X (q'\<lparr>ring_entries := ring_entries q' @ [E]\<rparr>)
       (set_active_pollers M (rm\<lparr>ring_entries := ring_entries rm @ [P]\<rparr>)
          (t3\<lparr>poller_mem := (poller_mem t3)(P :=
               (poller_mem t3 P)\<lparr>p_lcore := r_lcore (g_reactors t3 M)\<rparr>)\<rparr>))"
  define s4 where "s4 = u4\<lparr>g_spdk_event_mempool := Some (y # x # pool),
            trace := trace s3 @ [EventRun y, EventFree y]\<rparr>"
  have "u_spdk_event_add_poller y t3 = Inr u4"
    unfolding u4_def
  proof (rule add_poller_ok)
    show "ev_arg1 (event_mem t3 y) = M" "ev_arg2 (event_mem t3 y) = P"
      "ev_next (event_mem t3 y) = E"
      by (simp_all add: t3_ev)
    show "E \<noteq> NULL"
      by (rule E(1))
    show "active_pollers (g_reactors t3 M) = Some rm"
      by (rule t3_ring)
    show "length (ring_entries rm) < ring_capacity rm"
      by (rule rm(2))
    show "ev_lcore (event_mem t3 E) = ?X"
      by (simp add: t3_ev)
    show "events (g_reactors t3 ?X) = Some q'"
      by (rule q'(1))
    show "length (ring_entries q') < ring_capacity q'"
      using qe(2) q'(2,3) by simp
  qed
  then have c4: "event_fn_call cb M y t3 = Inr u4"
    using t3_ev by (simp add: event_fn_call_def)
  have m4: "spdk_event_queue_run_single cb M s3 = Inr s4"
    unfolding s4_def
  proof (rule run_single_ok)
    show "events (g_reactors s3 M) = Some ?qm3"
      by (simp add: s3_def u3_def set_events_def)
    show "ring_entries ?qm3 = y # []"
      by simp
    show "y \<noteq> NULL"
      by (rule pool(3))
    show "event_fn_call cb M y
        ((set_events M (?qm3\<lparr>ring_entries := []\<rparr>) s3)\<lparr>trace := trace s3 @ [EventRun y]\<rparr>) =
        Inr u4"
      using c4 by (simp add: t3_def)
    show "g_spdk_event_mempool u4 = Some (x # pool)"
      by (simp add: u4_def t3_def s3_def set_events_def set_active_pollers_def)
  qed
  have s4_rings: "active_pollers (g_reactors s4 c) =
      (if c = M then Some (rm\<lparr>ring_entries := ring_entries rm @ [P]\<rparr>)
       else active_pollers (g_reactors s2 c))" for c
    by (simp add: s4_def u4_def t3_def s3_def u3_def t2_def set_events_def set_active_pollers_def)
  have s4_lcore: "p_lcore (poller_mem s4 P) = M"
    using t3_lcore by (simp add: s4_def u4_def set_events_def set_active_pollers_def)
  have s4_q: "queue_entries ?X s4 = ring_entries qe @ [E]"
    using q'(2) by (simp add: queue_entries_def s4_def u4_def set_events_def)
  have reg4: "registered_on s4 P M"
    unfolding registered_on_def
  proof (intro conjI allI impI)
    show "p_lcore (poller_mem s4 P) = M"
      by (rule s4_lcore)
    show "\<exists>r. active_pollers (g_reactors s4 M) = Some r \<and> count_list (ring_entries r) P = 1 \<and>
        length (ring_entries r) \<le> ring_capacity r"
      using Prm rm(2) by (simp add: s4_rings count_list_0_iff)
  next
    fix c r
    assume "c \<noteq> M \<and> active_pollers (g_reactors s4 c) = Some r"
    then have "active_pollers (g_reactors s2 c) = Some r"
      by (auto simp: s4_rings)
    then show "P \<notin> set (ring_entries r)"
      using nr2 by (simp add: in_no_ring_def)
  qed
  show ?thesis
    using m1 reg1 m2 nr2 m3 nr3 m4 reg4 s4_q by blast
qed

theorem migrate_moves_poller_witness:
  "registered_on migrate_state 7 0 \<and>
   g_reactor_mask migrate_state AND push_bit 1 1 \<noteq> 0 \<and>
   (\<exists>s1 s2 s3 s4.
      spdk_poller_migrate 7 1 30 migrate_state = Inr s1 \<and> registered_on s1 7 0 \<and>
      spdk_event_queue_run_single idle_callbacks 0 s1 = Inr s2 \<and> in_no_ring s2 7 \<and>
      spdk_event_queue_run_single idle_callbacks 1 s2 = Inr s3 \<and> in_no_ring s3 7 \<and>
      spdk_event_queue_run_single idle_callbacks 1 s3 = Inr s4 \<and> registered_on s4 7 1 \<and>
      queue_entries 1 s4 = [30])"
proof -
  let ?r = "\<lparr>ring_entries = [], ring_capacity = 4095\<rparr>"
  let ?q = "\<lparr>ring_entries = [], ring_capacity = 65535\<rparr>"
  have reg: "registered_on migrate_state 7 0"
    by (auto simp: registered_on_def migrate_state_def zero_state_def reactor_with_def
        split: if_splits)
  have mask: "g_reactor_mask migrate_state AND push_bit 1 1 \<noteq> 0"
    by (simp add: migrate_state_def)
  have rm: "active_pollers (g_reactors migrate_state 1) = Some ?r"
    "length (ring_entries ?r) < ring_capacity ?r" "r_lcore (g_reactors migrate_state 1) = 1"
    by (simp_all add: migrate_state_def reactor_with_def)
  have qa: "events (g_reactors migrate_state 0) = Some ?q" "ring_entries ?q = []"
    "0 < ring_capacity ?q"
    by (simp_all add: migrate_state_def reactor_with_def)
  have qm: "events (g_reactors migrate_state 1) = Some ?q"
    by (simp add: migrate_state_def reactor_with_def)
  have pool: "g_spdk_event_mempool migrate_state = Some (20 # 21 # [])"
    by (simp add: migrate_state_def)
  have X: "ev_lcore (event_mem migrate_state 30) = 1"
    by (simp add: migrate_state_def)
  have qe: "events (g_reactors migrate_state (ev_lcore (event_mem migrate_state 30))) = Some ?q"
    "length (ring_entries ?q) < ring_capacity ?q"
    using qm by (simp_all add: X)
  from migrate_moves_poller [where cb = idle_callbacks, OF reg _ _ mask rm qa qm qa(2,3) pool _ _ _ _ _ _ qe]
  show ?thesis
    using reg mask by (simp add: X)
qed

end
